theory Spec2Isabelle
  imports Main "HOL-Library.Word"
begin

unbundle bit_operations_syntax

section \<open>Bytes, errors and results\<close>

text \<open>
  A Go \<^verbatim>\<open>[]byte\<close> value is modelled by the list of its bytes and a Go \<^verbatim>\<open>string\<close> by the
  list of its bytes as well: the conversions \<^verbatim>\<open>[]byte(s)\<close> and \<^verbatim>\<open>string(d)\<close> copy the bytes
  unchanged. A 16-byte cipher block is a 128-bit word, first byte most significant.
\<close>

type_synonym byte = "8 word"
type_synonym bytes = "byte list"
type_synonym block = "128 word"

text \<open>
  The error values the package can return: \<^verbatim>\<open>aes.KeySizeError\<close>,
  \<^verbatim>\<open>base64.CorruptInputError\<close>, the error of a failed \<^verbatim>\<open>gcm.Open\<close>, \<^verbatim>\<open>io.EOF\<close>,
  \<^verbatim>\<open>io.ErrUnexpectedEOF\<close>, \<^verbatim>\<open>errors.New\<close> and \<^verbatim>\<open>fmt.Errorf\<close> (the format string with its
  operands, unformatted).
\<close>

datatype error =
    KeySizeError nat
  | CorruptInputError nat
  | errOpen
  | EOF
  | ErrUnexpectedEOF
  | errorString string
  | Errorf string "operand list"
and operand = IntOp nat | ErrOp error

datatype panic = SliceBoundsOutOfRange | PanicString string

text \<open>
  A call returns a value with a nil error (\<open>Ok\<close>), returns a non-nil error (\<open>Err\<close>), or
  panics (\<open>Panic\<close>).
\<close>

datatype 'a result = Ok 'a | Err error | Panic panic

text \<open>
  \<^verbatim>\<open>rand.Reader\<close> is modelled by the bytes it still delivers and the error it returns once
  they are used up. \<^verbatim>\<open>io.ReadFull\<close> fills a buffer of \<open>n\<close> bytes or returns the error; a
  reader that ends with \<^verbatim>\<open>io.EOF\<close> after some but not all of the bytes gives
  \<^verbatim>\<open>io.ErrUnexpectedEOF\<close>.
\<close>

datatype Reader = Reader (pending: bytes) (failure: error)

definition ReadFull :: "Reader \<Rightarrow> nat \<Rightarrow> bytes result" where
  "ReadFull r n =
     (if n \<le> length (pending r) then Ok (take n (pending r))
      else Err (if failure r = EOF \<and> pending r \<noteq> [] then ErrUnexpectedEOF else failure r))"

definition xor_bytes :: "bytes \<Rightarrow> bytes \<Rightarrow> bytes" where
  "xor_bytes a b = map2 (XOR) a b"

definition bytes_of_block :: "block \<Rightarrow> bytes" where
  "bytes_of_block w = map (\<lambda>i. ucast (drop_bit (8 * (15 - i)) w)) [0..<16]"

definition block_of_bytes :: "bytes \<Rightarrow> block" where
  "block_of_bytes bs = foldl (\<lambda>acc b. push_bit 8 acc OR ucast b) 0 (take 16 bs)"

section \<open>The standard library: \<^verbatim>\<open>encoding/base64\<close>\<close>

definition encodeStd :: "bytes" where
  "encodeStd = map of_char ''ABCDEFGHIJKLMNOPQRSTUVWXYZabcdefghijklmnopqrstuvwxyz0123456789+/''"

definition padChar :: "byte" where
  "padChar = of_char (CHR ''='')"

definition enc64 :: "32 word \<Rightarrow> byte" where
  "enc64 v = encodeStd ! unat (v AND 0x3F)"

text \<open>
  \<^verbatim>\<open>Encoding.Encode\<close> with the standard alphabet and padding: three bytes give four
  characters, and a remainder of one or two bytes is padded with \<^verbatim>\<open>=\<close>.
\<close>

fun Encode :: "bytes \<Rightarrow> bytes" where
  "Encode (s0 # s1 # s2 # src) =
     (let val = push_bit 16 (ucast s0) OR push_bit 8 (ucast s1) OR ucast s2 :: 32 word
      in [enc64 (drop_bit 18 val), enc64 (drop_bit 12 val), enc64 (drop_bit 6 val), enc64 val]
         @ Encode src)"
| "Encode [s0, s1] =
     (let val = push_bit 16 (ucast s0) OR push_bit 8 (ucast s1) :: 32 word
      in [enc64 (drop_bit 18 val), enc64 (drop_bit 12 val), enc64 (drop_bit 6 val), padChar])"
| "Encode [s0] =
     (let val = push_bit 16 (ucast s0) :: 32 word
      in [enc64 (drop_bit 18 val), enc64 (drop_bit 12 val), padChar, padChar])"
| "Encode [] = []"

definition EncodeToString :: "bytes \<Rightarrow> bytes" where
  "EncodeToString src = Encode src"

text \<open>
  The decode map: 255 for every byte outside the alphabet, the index in the alphabet
  otherwise.
\<close>

definition decodeMap :: "byte \<Rightarrow> byte" where
  "decodeMap =
     fold (\<lambda>i m. m(encodeStd ! i := of_nat i)) [0..<64] (\<lambda>_. 0xFF)"

definition is_newline :: "byte \<Rightarrow> bool" where
  "is_newline c = (c = 0x0A \<or> c = 0x0D)"

fun skip_newlines :: "bytes \<Rightarrow> nat \<Rightarrow> bytes \<times> nat" where
  "skip_newlines [] si = ([], si)"
| "skip_newlines (c # cs) si =
     (if is_newline c then skip_newlines cs (Suc si) else (c # cs, si))"

text \<open>
  The bytes of one quantum: \<open>dbuf\<close> holds the \<open>dlen\<close> six-bit digits read (missing digits
  are zero), which give \<open>dlen - 1\<close> bytes.
\<close>

definition quantum_bytes :: "byte list \<Rightarrow> bytes" where
  "quantum_bytes dbuf =
     (let d = map ucast (dbuf @ replicate (4 - length dbuf) 0) :: 32 word list;
          val = push_bit 18 (d ! 0) OR push_bit 12 (d ! 1) OR push_bit 6 (d ! 2) OR d ! 3
      in take (length dbuf - 1) [ucast (drop_bit 16 val), ucast (drop_bit 8 val), ucast val])"

text \<open>
  \<^verbatim>\<open>Encoding.Decode\<close> over \<^verbatim>\<open>decodeQuantum\<close>, not strict: \<open>si\<close> is the index of the next
  character, \<open>dbuf\<close> the digits of the current quantum (\<open>j = length dbuf\<close>), \<open>n\<close> the length of
  the whole input. New lines are skipped, padding ends the input, and the result is the
  decoded bytes with the error, if any. (The library's fast paths decode eight and four
  alphabet characters at a time to the same bytes and fall back to \<^verbatim>\<open>decodeQuantum\<close> on
  every other character.)
\<close>

fun decode :: "nat \<Rightarrow> byte list \<Rightarrow> nat \<Rightarrow> bytes \<Rightarrow> bytes \<times> error option" where
  "decode n dbuf si [] =
     (if dbuf = [] then ([], None) else ([], Some (CorruptInputError (si - length dbuf))))"
| "decode n dbuf si (c # cs) =
     (if decodeMap c \<noteq> 0xFF then
        (if length dbuf = 3 then
           (case decode n [] (Suc si) cs of
              (rest, err) \<Rightarrow> (quantum_bytes (dbuf @ [decodeMap c]) @ rest, err))
         else decode n (dbuf @ [decodeMap c]) (Suc si) cs)
      else if is_newline c then decode n dbuf (Suc si) cs
      else if c \<noteq> padChar then ([], Some (CorruptInputError si))
      else if length dbuf < 2 then ([], Some (CorruptInputError si))
      else if length dbuf = 2 then
        (case skip_newlines cs (Suc si) of
           ([], si') \<Rightarrow> ([], Some (CorruptInputError n))
         | (c' # cs', si') \<Rightarrow>
             if c' \<noteq> padChar then ([], Some (CorruptInputError (si' - 1)))
             else (case skip_newlines cs' (Suc si') of
                     ([], si'') \<Rightarrow> (quantum_bytes dbuf, None)
                   | (_ # _, si'') \<Rightarrow> (quantum_bytes dbuf, Some (CorruptInputError si''))))
      else
        (case skip_newlines cs (Suc si) of
           ([], si') \<Rightarrow> (quantum_bytes dbuf, None)
         | (_ # _, si') \<Rightarrow> (quantum_bytes dbuf, Some (CorruptInputError si'))))"

definition DecodeString :: "bytes \<Rightarrow> bytes \<times> error option" where
  "DecodeString s = decode (length s) [] 0 s"

section \<open>The standard library: \<^verbatim>\<open>crypto/aes\<close>\<close>

text \<open>
  The AES block transformation of FIPS 197 on a state of 16 bytes (column by column),
  for keys of 16, 24 and 32 bytes.
\<close>

definition sbox :: "bytes" where
  "sbox =
    [0x63, 0x7c, 0x77, 0x7b, 0xf2, 0x6b, 0x6f, 0xc5, 0x30, 0x01, 0x67, 0x2b, 0xfe, 0xd7, 0xab, 0x76,
     0xca, 0x82, 0xc9, 0x7d, 0xfa, 0x59, 0x47, 0xf0, 0xad, 0xd4, 0xa2, 0xaf, 0x9c, 0xa4, 0x72, 0xc0,
     0xb7, 0xfd, 0x93, 0x26, 0x36, 0x3f, 0xf7, 0xcc, 0x34, 0xa5, 0xe5, 0xf1, 0x71, 0xd8, 0x31, 0x15,
     0x04, 0xc7, 0x23, 0xc3, 0x18, 0x96, 0x05, 0x9a, 0x07, 0x12, 0x80, 0xe2, 0xeb, 0x27, 0xb2, 0x75,
     0x09, 0x83, 0x2c, 0x1a, 0x1b, 0x6e, 0x5a, 0xa0, 0x52, 0x3b, 0xd6, 0xb3, 0x29, 0xe3, 0x2f, 0x84,
     0x53, 0xd1, 0x00, 0xed, 0x20, 0xfc, 0xb1, 0x5b, 0x6a, 0xcb, 0xbe, 0x39, 0x4a, 0x4c, 0x58, 0xcf,
     0xd0, 0xef, 0xaa, 0xfb, 0x43, 0x4d, 0x33, 0x85, 0x45, 0xf9, 0x02, 0x7f, 0x50, 0x3c, 0x9f, 0xa8,
     0x51, 0xa3, 0x40, 0x8f, 0x92, 0x9d, 0x38, 0xf5, 0xbc, 0xb6, 0xda, 0x21, 0x10, 0xff, 0xf3, 0xd2,
     0xcd, 0x0c, 0x13, 0xec, 0x5f, 0x97, 0x44, 0x17, 0xc4, 0xa7, 0x7e, 0x3d, 0x64, 0x5d, 0x19, 0x73,
     0x60, 0x81, 0x4f, 0xdc, 0x22, 0x2a, 0x90, 0x88, 0x46, 0xee, 0xb8, 0x14, 0xde, 0x5e, 0x0b, 0xdb,
     0xe0, 0x32, 0x3a, 0x0a, 0x49, 0x06, 0x24, 0x5c, 0xc2, 0xd3, 0xac, 0x62, 0x91, 0x95, 0xe4, 0x79,
     0xe7, 0xc8, 0x37, 0x6d, 0x8d, 0xd5, 0x4e, 0xa9, 0x6c, 0x56, 0xf4, 0xea, 0x65, 0x7a, 0xae, 0x08,
     0xba, 0x78, 0x25, 0x2e, 0x1c, 0xa6, 0xb4, 0xc6, 0xe8, 0xdd, 0x74, 0x1f, 0x4b, 0xbd, 0x8b, 0x8a,
     0x70, 0x3e, 0xb5, 0x66, 0x48, 0x03, 0xf6, 0x0e, 0x61, 0x35, 0x57, 0xb9, 0x86, 0xc1, 0x1d, 0x9e,
     0xe1, 0xf8, 0x98, 0x11, 0x69, 0xd9, 0x8e, 0x94, 0x9b, 0x1e, 0x87, 0xe9, 0xce, 0x55, 0x28, 0xdf,
     0x8c, 0xa1, 0x89, 0x0d, 0xbf, 0xe6, 0x42, 0x68, 0x41, 0x99, 0x2d, 0x0f, 0xb0, 0x54, 0xbb, 0x16]"

definition SubByte :: "byte \<Rightarrow> byte" where
  "SubByte b = sbox ! unat b"

definition xtime :: "byte \<Rightarrow> byte" where
  "xtime b = (if bit b 7 then push_bit 1 b XOR 0x1b else push_bit 1 b)"

definition SubBytes :: "bytes \<Rightarrow> bytes" where
  "SubBytes s = map SubByte s"

definition ShiftRows :: "bytes \<Rightarrow> bytes" where
  "ShiftRows s = map (\<lambda>i. s ! ((i mod 4) + 4 * ((i div 4 + i mod 4) mod 4))) [0..<16]"

definition MixColumn :: "bytes \<Rightarrow> bytes" where
  "MixColumn col =
     (let a0 = col ! 0; a1 = col ! 1; a2 = col ! 2; a3 = col ! 3 in
      [xtime a0 XOR (xtime a1 XOR a1) XOR a2 XOR a3,
       a0 XOR xtime a1 XOR (xtime a2 XOR a2) XOR a3,
       a0 XOR a1 XOR xtime a2 XOR (xtime a3 XOR a3),
       (xtime a0 XOR a0) XOR a1 XOR a2 XOR xtime a3])"

definition MixColumns :: "bytes \<Rightarrow> bytes" where
  "MixColumns s = concat (map (\<lambda>c. MixColumn (take 4 (drop (4 * c) s))) [0..<4])"

definition AddRoundKey :: "bytes \<Rightarrow> bytes \<Rightarrow> bytes" where
  "AddRoundKey s k = xor_bytes s k"

definition Rcon :: "bytes" where
  "Rcon = [0x01, 0x02, 0x04, 0x08, 0x10, 0x20, 0x40, 0x80, 0x1b, 0x36]"

definition RotWord :: "bytes \<Rightarrow> bytes" where
  "RotWord w = drop 1 w @ take 1 w"

text \<open>One step of the key schedule: the word appended after the words \<open>ws\<close>.\<close>

definition next_word :: "nat \<Rightarrow> bytes list \<Rightarrow> bytes" where
  "next_word Nk ws =
     (let i = length ws;
          prev = ws ! (i - 1);
          temp = (if i mod Nk = 0
                  then xor_bytes (SubBytes (RotWord prev)) [Rcon ! (i div Nk - 1), 0, 0, 0]
                  else if 6 < Nk \<and> i mod Nk = 4 then SubBytes prev
                  else prev)
      in xor_bytes (ws ! (i - Nk)) temp)"

fun expand :: "nat \<Rightarrow> nat \<Rightarrow> bytes list \<Rightarrow> bytes list" where
  "expand Nk 0 ws = ws"
| "expand Nk (Suc n) ws = expand Nk n (ws @ [next_word Nk ws])"

definition expandKey :: "bytes \<Rightarrow> bytes list" where
  "expandKey key =
     (let Nk = length key div 4;
          ws = map (\<lambda>i. take 4 (drop (4 * i) key)) [0..<Nk]
      in expand Nk (4 * (Nk + 7) - Nk) ws)"

definition round_key :: "bytes list \<Rightarrow> nat \<Rightarrow> bytes" where
  "round_key ws r = concat (take 4 (drop (4 * r) ws))"

fun rounds :: "bytes list \<Rightarrow> nat \<Rightarrow> nat \<Rightarrow> bytes \<Rightarrow> bytes" where
  "rounds ws r 0 s = s"
| "rounds ws r (Suc n) s =
     rounds ws (Suc r) n (AddRoundKey (MixColumns (ShiftRows (SubBytes s))) (round_key ws r))"

definition encryptBlock :: "bytes list \<Rightarrow> bytes \<Rightarrow> bytes" where
  "encryptBlock ws src =
     (let Nr = length ws div 4 - 1;
          s = rounds ws 1 (Nr - 1) (AddRoundKey src (round_key ws 0))
      in AddRoundKey (ShiftRows (SubBytes s)) (round_key ws Nr))"

definition aes_encrypt :: "bytes \<Rightarrow> block \<Rightarrow> block" where
  "aes_encrypt key src = block_of_bytes (encryptBlock (expandKey key) (bytes_of_block src))"

text \<open>
  A \<^verbatim>\<open>cipher.Block\<close> is an object with the methods \<^verbatim>\<open>BlockSize\<close> and \<^verbatim>\<open>Encrypt\<close> (its
  \<^verbatim>\<open>Decrypt\<close> is never called by this package). The only blocks of this package come
  from \<^verbatim>\<open>aes.NewCipher\<close>, whose block size is 16; a block is modelled by its encryption
  of one 128-bit block.
\<close>

datatype Block = Block (crypt: "block \<Rightarrow> block")

definition BlockSize :: "Block \<Rightarrow> nat" where
  "BlockSize c = 16"

definition Block_Encrypt :: "Block \<Rightarrow> bytes \<Rightarrow> bytes" where
  "Block_Encrypt c src = bytes_of_block (crypt c (block_of_bytes src))"

text \<open>\<^verbatim>\<open>aes.NewCipher\<close> accepts keys of 16, 24 and 32 bytes only.\<close>

definition aes_NewCipher :: "bytes \<Rightarrow> Block result" where
  "aes_NewCipher key =
     (if length key = 16 \<or> length key = 24 \<or> length key = 32
      then Ok (Block (aes_encrypt key))
      else Err (KeySizeError (length key)))"

section \<open>The standard library: \<^verbatim>\<open>crypto/cipher\<close>\<close>

subsection \<open>Cipher feedback mode\<close>

text \<open>
  A CFB stream holds the block, the register \<open>next'\<close> that is encrypted to give the next 16
  bytes of key stream, and its direction. The package creates a stream for every call
  and uses it once, so the stream is always at a block boundary when
  \<^verbatim>\<open>XORKeyStream\<close> starts: each round encrypts \<open>next'\<close>, XORs up to 16 bytes and
  loads \<open>next'\<close> with the ciphertext bytes of the round.
\<close>

datatype cfb = cfb (b: Block) (next': bytes) (decrypt: bool)

definition newCFB :: "Block \<Rightarrow> bytes \<Rightarrow> bool \<Rightarrow> cfb result" where
  "newCFB block iv decr =
     (if length iv \<noteq> BlockSize block
      then Panic (PanicString ''cipher.newCFB: IV length must equal block size'')
      else Ok (cfb block iv decr))"

definition NewCFBEncrypter :: "Block \<Rightarrow> bytes \<Rightarrow> cfb result" where
  "NewCFBEncrypter block iv = newCFB block iv False"

definition NewCFBDecrypter :: "Block \<Rightarrow> bytes \<Rightarrow> cfb result" where
  "NewCFBDecrypter block iv = newCFB block iv True"

fun XORKeyStream :: "cfb \<Rightarrow> bytes \<Rightarrow> bytes" where
  "XORKeyStream x [] = []"
| "XORKeyStream x (s # src) =
     (let out = Block_Encrypt (b x) (next' x);
          dst = xor_bytes (take 16 (s # src)) out
      in dst @ XORKeyStream (cfb (b x) (if decrypt x then take 16 (s # src) else dst) (decrypt x))
                 (drop 16 (s # src)))"

subsection \<open>Galois counter mode\<close>

text \<open>
  Multiplication in GF(2^128) as GCM defines it (the leftmost bit of a block is the
  coefficient of \<open>x^0\<close>), and the hash of a byte sequence in blocks of 16 bytes, the last
  one padded with zeros.
\<close>

definition gcm_mul :: "block \<Rightarrow> block \<Rightarrow> block" where
  "gcm_mul x y =
     fst (fold (\<lambda>i (z, v).
                 (if bit x (127 - i) then z XOR v else z,
                  if bit v 0 then drop_bit 1 v XOR push_bit 120 0xE1 else drop_bit 1 v))
               [0..<128] (0, y))"

fun gcm_update :: "block \<Rightarrow> block \<Rightarrow> bytes \<Rightarrow> block" where
  "gcm_update h y [] = y"
| "gcm_update h y (d # data) =
     (let blk = take 16 (d # data)
      in gcm_update h (gcm_mul (y XOR block_of_bytes (blk @ replicate (16 - length blk) 0)) h)
           (drop 16 (d # data)))"

datatype gcm = gcm (cipher: Block) (nonceSize: nat) (tagSize: nat)

definition NewGCM :: "Block \<Rightarrow> gcm result" where
  "NewGCM c =
     (if BlockSize c \<noteq> 16 then Err (errorString ''cipher: NewGCM requires 128-bit block cipher'')
      else Ok (gcm c 12 16))"

definition NonceSize :: "gcm \<Rightarrow> nat" where
  "NonceSize g = nonceSize g"

text \<open>The counter block of a 12-byte nonce, and the increment of its last 32 bits.\<close>

definition deriveCounter :: "bytes \<Rightarrow> block" where
  "deriveCounter nonce = block_of_bytes (nonce @ [0, 0, 0, 1])"

definition gcmInc32 :: "block \<Rightarrow> block" where
  "gcmInc32 ctr = (ctr AND NOT 0xFFFFFFFF) OR ((ctr + 1) AND 0xFFFFFFFF)"

fun counterCrypt :: "Block \<Rightarrow> block \<Rightarrow> bytes \<Rightarrow> bytes" where
  "counterCrypt c ctr [] = []"
| "counterCrypt c ctr (s # src) =
     xor_bytes (take 16 (s # src)) (bytes_of_block (crypt c ctr))
     @ counterCrypt c (gcmInc32 ctr) (drop 16 (s # src))"

definition auth :: "gcm \<Rightarrow> bytes \<Rightarrow> bytes \<Rightarrow> block \<Rightarrow> bytes" where
  "auth g ciphertext additionalData tagMask =
     (let h = crypt (cipher g) 0;
          y = gcm_update h (gcm_update h 0 additionalData) ciphertext;
          lens = push_bit 64 (ucast (of_nat (length additionalData) * 8 :: 64 word))
                 OR ucast (of_nat (length ciphertext) * 8 :: 64 word)
      in bytes_of_block (gcm_mul (y XOR lens) h XOR tagMask))"

text \<open>
  \<^verbatim>\<open>Seal\<close> appends the encrypted plaintext and its tag to \<open>dst\<close>. It panics on a nonce of
  the wrong length and on a plaintext of more than \<open>2^32 - 2\<close> blocks.
\<close>

definition Seal :: "gcm \<Rightarrow> bytes \<Rightarrow> bytes \<Rightarrow> bytes \<Rightarrow> bytes \<Rightarrow> bytes result" where
  "Seal g dst nonce plaintext data =
     (if length nonce \<noteq> nonceSize g
      then Panic (PanicString ''crypto/cipher: incorrect nonce length given to GCM'')
      else if (2 ^ 32 - 2) * BlockSize (cipher g) < length plaintext
      then Panic (PanicString ''crypto/cipher: message too large for GCM'')
      else
        (let counter = deriveCounter nonce;
             tagMask = crypt (cipher g) counter;
             out = counterCrypt (cipher g) (gcmInc32 counter) plaintext;
             tag = auth g out data tagMask
         in Ok (dst @ out @ tag)))"

text \<open>
  \<^verbatim>\<open>Open\<close> splits the tag off the end, compares it with the tag it computes and
  decrypts only when they are equal.
\<close>

definition Open :: "gcm \<Rightarrow> bytes \<Rightarrow> bytes \<Rightarrow> bytes \<Rightarrow> bytes \<Rightarrow> bytes result" where
  "Open g dst nonce ciphertext data =
     (if length nonce \<noteq> nonceSize g
      then Panic (PanicString ''crypto/cipher: incorrect nonce length given to GCM'')
      else if tagSize g < 12
      then Panic (PanicString ''crypto/cipher: incorrect GCM tag size'')
      else if length ciphertext < tagSize g then Err errOpen
      else if (2 ^ 32 - 2) * BlockSize (cipher g) + tagSize g < length ciphertext then Err errOpen
      else
        (let tag = drop (length ciphertext - tagSize g) ciphertext;
             ct = take (length ciphertext - tagSize g) ciphertext;
             counter = deriveCounter nonce;
             tagMask = crypt (cipher g) counter;
             expectedTag = auth g ct data tagMask
         in if take (tagSize g) expectedTag \<noteq> tag then Err errOpen
            else Ok (dst @ counterCrypt (cipher g) (gcmInc32 counter) ct)))"

section \<open>The package \<^verbatim>\<open>encryption\<close>\<close>

text \<open>
  \<^verbatim>\<open>DefaultCipher\<close> is an empty struct. The other three structs embed it; a \<^verbatim>\<open>Cipher\<close>
  is a pointer to one of the four.
\<close>

datatype DefaultCipher = DefaultCipher

datatype Cipher =
    Default DefaultCipher
  | Base64Cipher DefaultCipher Cipher
  | CFBCipher DefaultCipher Block
  | GCMCipher DefaultCipher Block

type_synonym codecFunc = "bytes \<Rightarrow> bytes result"

text \<open>
  A \<^verbatim>\<open>*string\<close> is \<open>None\<close> for the nil pointer and \<open>Some v\<close> for a pointer to a string
  holding \<open>v\<close>; \<open>into\<close> returns its result with the string as the call leaves it.
\<close>

definition into :: "codecFunc \<Rightarrow> bytes option \<Rightarrow> unit result \<times> bytes option" where
  "into f s =
     (case s of
        None \<Rightarrow> (Ok (), None)
      | Some v \<Rightarrow>
          if v = [] then (Ok (), Some v)
          else (case f v of
                  Ok d \<Rightarrow> (Ok (), Some d)
                | Err err \<Rightarrow> (Err err, Some v)
                | Panic p \<Rightarrow> (Panic p, Some v)))"

subsection \<open>\<^verbatim>\<open>DefaultCipher\<close>\<close>

definition DefaultCipher_Encrypt :: "DefaultCipher \<Rightarrow> bytes \<Rightarrow> bytes result" where
  "DefaultCipher_Encrypt c value = Ok value"

definition DefaultCipher_Decrypt :: "DefaultCipher \<Rightarrow> bytes \<Rightarrow> bytes result" where
  "DefaultCipher_Decrypt c ciphertext = Ok ciphertext"

definition DefaultCipher_EncryptInto ::
  "DefaultCipher \<Rightarrow> bytes option \<Rightarrow> unit result \<times> bytes option" where
  "DefaultCipher_EncryptInto c s = into (DefaultCipher_Encrypt c) s"

definition DefaultCipher_DecryptInto ::
  "DefaultCipher \<Rightarrow> bytes option \<Rightarrow> unit result \<times> bytes option" where
  "DefaultCipher_DecryptInto c s = into (DefaultCipher_Decrypt c) s"

subsection \<open>\<^verbatim>\<open>CFBCipher\<close>\<close>

definition NewCFBCipher :: "bytes \<Rightarrow> Cipher result" where
  "NewCFBCipher secret =
     (case aes_NewCipher secret of
        Err err \<Rightarrow> Err err
      | Panic p \<Rightarrow> Panic p
      | Ok c \<Rightarrow> Ok (CFBCipher DefaultCipher c))"

definition CFBCipher_Encrypt :: "Block \<Rightarrow> Reader \<Rightarrow> bytes \<Rightarrow> bytes result" where
  "CFBCipher_Encrypt c rand value =
     (case ReadFull rand 16 of
        Err err \<Rightarrow> Err (Errorf ''failed to create initialization vector %s'' [ErrOp err])
      | Panic p \<Rightarrow> Panic p
      | Ok iv \<Rightarrow>
          (case NewCFBEncrypter c iv of
             Err err \<Rightarrow> Err err
           | Panic p \<Rightarrow> Panic p
           | Ok stream \<Rightarrow> Ok (iv @ XORKeyStream stream value)))"

definition CFBCipher_Decrypt :: "Block \<Rightarrow> bytes \<Rightarrow> bytes result" where
  "CFBCipher_Decrypt c ciphertext =
     (if length ciphertext < 16
      then Err (Errorf ''encrypted value should be at least %d bytes, but is only %d bytes''
                  [IntOp 16, IntOp (length ciphertext)])
      else
        (let iv = take 16 ciphertext;
             ciphertext' = drop 16 ciphertext
         in case NewCFBDecrypter c iv of
              Err err \<Rightarrow> Err err
            | Panic p \<Rightarrow> Panic p
            | Ok stream \<Rightarrow> Ok (XORKeyStream stream ciphertext')))"

subsection \<open>\<^verbatim>\<open>GCMCipher\<close>\<close>

definition NewGCMCipher :: "bytes \<Rightarrow> Cipher result" where
  "NewGCMCipher secret =
     (case aes_NewCipher secret of
        Err err \<Rightarrow> Err err
      | Panic p \<Rightarrow> Panic p
      | Ok c \<Rightarrow> Ok (GCMCipher DefaultCipher c))"

definition GCMCipher_Encrypt :: "Block \<Rightarrow> Reader \<Rightarrow> bytes \<Rightarrow> bytes result" where
  "GCMCipher_Encrypt c rand value =
     (case NewGCM c of
        Err err \<Rightarrow> Err err
      | Panic p \<Rightarrow> Panic p
      | Ok g \<Rightarrow>
          (case ReadFull rand (NonceSize g) of
             Err err \<Rightarrow> Err err
           | Panic p \<Rightarrow> Panic p
           | Ok nonce \<Rightarrow> Seal g nonce nonce value []))"

text \<open>
  The two slice expressions \<^verbatim>\<open>ciphertext[:nonceSize]\<close> and \<^verbatim>\<open>ciphertext[nonceSize:]\<close>
  are evaluated with no check of the length before them: on a ciphertext shorter than
  the nonce the second one (or already the first, when the capacity is short as well)
  panics.
\<close>

definition GCMCipher_Decrypt :: "Block \<Rightarrow> bytes \<Rightarrow> bytes result" where
  "GCMCipher_Decrypt c ciphertext =
     (case NewGCM c of
        Err err \<Rightarrow> Err err
      | Panic p \<Rightarrow> Panic p
      | Ok g \<Rightarrow>
          (let nonceSize = NonceSize g in
           if length ciphertext < nonceSize then Panic SliceBoundsOutOfRange
           else
             (let nonce = take nonceSize ciphertext;
                  ciphertext' = drop nonceSize ciphertext
              in case Open g [] nonce ciphertext' [] of
                   Err err \<Rightarrow> Err err
                 | Panic p \<Rightarrow> Panic p
                 | Ok plaintext \<Rightarrow> Ok plaintext)))"

subsection \<open>\<^verbatim>\<open>Base64Cipher\<close> and the methods of the interface\<close>

text \<open>
  A call of \<^verbatim>\<open>Encrypt\<close> or \<^verbatim>\<open>Decrypt\<close> on a \<^verbatim>\<open>Cipher\<close> runs the method of the struct the
  interface value points to. \<open>rand\<close> is the state of \<^verbatim>\<open>rand.Reader\<close> at the call.
\<close>

fun Encrypt :: "Cipher \<Rightarrow> Reader \<Rightarrow> bytes \<Rightarrow> bytes result" where
  "Encrypt (Default d) rand value = DefaultCipher_Encrypt d value"
| "Encrypt (Base64Cipher d c) rand value =
     (case Encrypt c rand value of
        Err err \<Rightarrow> Err err
      | Panic p \<Rightarrow> Panic p
      | Ok encrypted \<Rightarrow> Ok (EncodeToString encrypted))"
| "Encrypt (CFBCipher d c) rand value = CFBCipher_Encrypt c rand value"
| "Encrypt (GCMCipher d c) rand value = GCMCipher_Encrypt c rand value"

fun Decrypt :: "Cipher \<Rightarrow> bytes \<Rightarrow> bytes result" where
  "Decrypt (Default d) ciphertext = DefaultCipher_Decrypt d ciphertext"
| "Decrypt (Base64Cipher d c) ciphertext =
     (case DecodeString ciphertext of
        (encrypted, Some err) \<Rightarrow> Err (Errorf ''failed to base64 decode value %s'' [ErrOp err])
      | (encrypted, None) \<Rightarrow> Decrypt c encrypted)"
| "Decrypt (CFBCipher d c) ciphertext = CFBCipher_Decrypt c ciphertext"
| "Decrypt (GCMCipher d c) ciphertext = GCMCipher_Decrypt c ciphertext"

text \<open>
  None of the three embedding structs declares \<^verbatim>\<open>EncryptInto\<close> or \<^verbatim>\<open>DecryptInto\<close>: a
  call on any of them is the promoted method of the embedded \<^verbatim>\<open>DefaultCipher\<close>, with the
  embedded field as its receiver.
\<close>

fun EncryptInto :: "Cipher \<Rightarrow> bytes option \<Rightarrow> unit result \<times> bytes option" where
  "EncryptInto (Default d) s = DefaultCipher_EncryptInto d s"
| "EncryptInto (Base64Cipher d c) s = DefaultCipher_EncryptInto d s"
| "EncryptInto (CFBCipher d c) s = DefaultCipher_EncryptInto d s"
| "EncryptInto (GCMCipher d c) s = DefaultCipher_EncryptInto d s"

fun DecryptInto :: "Cipher \<Rightarrow> bytes option \<Rightarrow> unit result \<times> bytes option" where
  "DecryptInto (Default d) s = DefaultCipher_DecryptInto d s"
| "DecryptInto (Base64Cipher d c) s = DefaultCipher_DecryptInto d s"
| "DecryptInto (CFBCipher d c) s = DefaultCipher_DecryptInto d s"
| "DecryptInto (GCMCipher d c) s = DefaultCipher_DecryptInto d s"

definition NewBase64Cipher :: "(bytes \<Rightarrow> Cipher result) \<Rightarrow> bytes \<Rightarrow> Cipher result" where
  "NewBase64Cipher initCipher secret =
     (case initCipher secret of
        Err err \<Rightarrow> Err err
      | Panic p \<Rightarrow> Panic p
      | Ok c \<Rightarrow> Ok (Base64Cipher DefaultCipher c))"

section \<open>The package on buffers\<close>

text \<open>
  Where a property is about the buffers themselves, the package is modelled over a heap:
  the byte arrays allocated so far, with a slice being an array (its index in the heap),
  an offset, a length and a capacity. The functions below are the same methods with
  their reads and writes of buffers written out; they compute the bytes with the
  functions above.
\<close>

type_synonym heap = "bytes list"

datatype slice = slice (array: nat) (off: nat) (len: nat) (cap: nat)

text \<open>The nil slice, allocation (\<^verbatim>\<open>make\<close>), the bytes of a slice, and \<^verbatim>\<open>copy\<close>.\<close>

definition nil :: slice where
  "nil = slice 0 0 0 0"

definition make :: "heap \<Rightarrow> nat \<Rightarrow> heap \<times> slice" where
  "make h n = (h @ [replicate n 0], slice (length h) 0 n n)"

definition load :: "heap \<Rightarrow> slice \<Rightarrow> bytes" where
  "load h s = take (len s) (drop (off s) (h ! array s))"

definition copy :: "heap \<Rightarrow> slice \<Rightarrow> bytes \<Rightarrow> heap" where
  "copy h dst src =
     (let a = h ! array dst; n = min (len dst) (length src)
      in h[array dst := take (off dst) a @ take n src @ drop (off dst + n) a])"

text \<open>The slice expressions \<^verbatim>\<open>s[:high]\<close> and \<^verbatim>\<open>s[low:]\<close>, which panic out of range.\<close>

definition slice_to :: "slice \<Rightarrow> nat \<Rightarrow> slice result" where
  "slice_to s high =
     (if high \<le> cap s then Ok (slice (array s) (off s) high (cap s))
      else Panic SliceBoundsOutOfRange)"

definition slice_from :: "slice \<Rightarrow> nat \<Rightarrow> slice result" where
  "slice_from s low =
     (if low \<le> len s then Ok (slice (array s) (off s + low) (len s - low) (cap s - low))
      else Panic SliceBoundsOutOfRange)"

text \<open>
  \<^verbatim>\<open>sliceForAppend\<close> (of \<^verbatim>\<open>crypto/cipher\<close>) extends a slice by \<open>n\<close> bytes in place when its
  capacity allows and in a new array otherwise; it returns the whole slice and its new
  part.
\<close>

definition sliceForAppend :: "heap \<Rightarrow> slice \<Rightarrow> nat \<Rightarrow> heap \<times> slice \<times> slice" where
  "sliceForAppend h inp n =
     (let total = len inp + n in
      if total \<le> cap inp
      then (h, slice (array inp) (off inp) total (cap inp),
               slice (array inp) (off inp + len inp) n (cap inp - len inp))
      else (case make h total of
              (h', head) \<Rightarrow>
                (copy h' head (load h inp), head,
                 slice (array head) (len inp) n (cap head - len inp))))"

text \<open>
  \<^verbatim>\<open>XORKeyStream(dst, src)\<close> reads \<open>src\<close> and writes \<open>dst\<close>; the two may be the same
  slice. \<^verbatim>\<open>Seal\<close> and \<^verbatim>\<open>Open\<close> append their output to \<open>dst\<close>.
\<close>

definition XORKeyStream_heap :: "cfb \<Rightarrow> heap \<Rightarrow> slice \<Rightarrow> slice \<Rightarrow> heap result" where
  "XORKeyStream_heap x h dst src =
     (if len dst < len src then Panic (PanicString ''crypto/cipher: output smaller than input'')
      else Ok (copy h dst (XORKeyStream x (load h src))))"

definition Seal_heap ::
  "gcm \<Rightarrow> heap \<Rightarrow> slice \<Rightarrow> slice \<Rightarrow> slice \<Rightarrow> slice \<Rightarrow> heap \<times> slice result" where
  "Seal_heap g h dst nonce plaintext data =
     (case Seal g [] (load h nonce) (load h plaintext) (load h data) of
        Err err \<Rightarrow> (h, Err err)
      | Panic p \<Rightarrow> (h, Panic p)
      | Ok sealed_bytes \<Rightarrow>
          (case sliceForAppend h dst (length sealed_bytes) of
             (h', ret, out) \<Rightarrow> (copy h' out sealed_bytes, Ok ret)))"

definition Open_heap ::
  "gcm \<Rightarrow> heap \<Rightarrow> slice \<Rightarrow> slice \<Rightarrow> slice \<Rightarrow> slice \<Rightarrow> heap \<times> slice result" where
  "Open_heap g h dst nonce ciphertext data =
     (case Open g [] (load h nonce) (load h ciphertext) (load h data) of
        Err err \<Rightarrow> (h, Err err)
      | Panic p \<Rightarrow> (h, Panic p)
      | Ok plaintext \<Rightarrow>
          (case sliceForAppend h dst (length plaintext) of
             (h', ret, out) \<Rightarrow> (copy h' out plaintext, Ok ret)))"

text \<open>The methods of the package.\<close>

definition CFBCipher_Encrypt_heap ::
  "Block \<Rightarrow> Reader \<Rightarrow> heap \<Rightarrow> slice \<Rightarrow> heap \<times> slice result" where
  "CFBCipher_Encrypt_heap c rand h value =
     (case make h (16 + len value) of
        (h1, ciphertext) \<Rightarrow>
          (case slice_to ciphertext 16 of
             Err err \<Rightarrow> (h1, Err err)
           | Panic p \<Rightarrow> (h1, Panic p)
           | Ok iv \<Rightarrow>
               (case ReadFull rand (len iv) of
                  Err err \<Rightarrow>
                    (copy h1 iv (pending rand),
                     Err (Errorf ''failed to create initialization vector %s'' [ErrOp err]))
                | Panic p \<Rightarrow> (h1, Panic p)
                | Ok r \<Rightarrow>
                    (let h2 = copy h1 iv r in
                     case NewCFBEncrypter c (load h2 iv) of
                       Err err \<Rightarrow> (h2, Err err)
                     | Panic p \<Rightarrow> (h2, Panic p)
                     | Ok stream \<Rightarrow>
                         (case slice_from ciphertext 16 of
                            Err err \<Rightarrow> (h2, Err err)
                          | Panic p \<Rightarrow> (h2, Panic p)
                          | Ok body \<Rightarrow>
                              (case XORKeyStream_heap stream h2 body value of
                                 Err err \<Rightarrow> (h2, Err err)
                               | Panic p \<Rightarrow> (h2, Panic p)
                               | Ok h3 \<Rightarrow> (h3, Ok ciphertext)))))))"

definition CFBCipher_Decrypt_heap :: "Block \<Rightarrow> heap \<Rightarrow> slice \<Rightarrow> heap \<times> slice result" where
  "CFBCipher_Decrypt_heap c h ciphertext =
     (if len ciphertext < 16
      then (h, Err (Errorf ''encrypted value should be at least %d bytes, but is only %d bytes''
                      [IntOp 16, IntOp (len ciphertext)]))
      else
        (case slice_to ciphertext 16 of
           Err err \<Rightarrow> (h, Err err)
         | Panic p \<Rightarrow> (h, Panic p)
         | Ok iv \<Rightarrow>
             (case slice_from ciphertext 16 of
                Err err \<Rightarrow> (h, Err err)
              | Panic p \<Rightarrow> (h, Panic p)
              | Ok ciphertext' \<Rightarrow>
                  (case NewCFBDecrypter c (load h iv) of
                     Err err \<Rightarrow> (h, Err err)
                   | Panic p \<Rightarrow> (h, Panic p)
                   | Ok stream \<Rightarrow>
                       (case XORKeyStream_heap stream h ciphertext' ciphertext' of
                          Err err \<Rightarrow> (h, Err err)
                        | Panic p \<Rightarrow> (h, Panic p)
                        | Ok h' \<Rightarrow> (h', Ok ciphertext'))))))"

definition GCMCipher_Encrypt_heap ::
  "Block \<Rightarrow> Reader \<Rightarrow> heap \<Rightarrow> slice \<Rightarrow> heap \<times> slice result" where
  "GCMCipher_Encrypt_heap c rand h value =
     (case NewGCM c of
        Err err \<Rightarrow> (h, Err err)
      | Panic p \<Rightarrow> (h, Panic p)
      | Ok g \<Rightarrow>
          (case make h (NonceSize g) of
             (h1, nonce) \<Rightarrow>
               (case ReadFull rand (len nonce) of
                  Err err \<Rightarrow> (copy h1 nonce (pending rand), Err err)
                | Panic p \<Rightarrow> (h1, Panic p)
                | Ok r \<Rightarrow> Seal_heap g (copy h1 nonce r) nonce nonce value nil)))"

definition GCMCipher_Decrypt_heap :: "Block \<Rightarrow> heap \<Rightarrow> slice \<Rightarrow> heap \<times> slice result" where
  "GCMCipher_Decrypt_heap c h ciphertext =
     (case NewGCM c of
        Err err \<Rightarrow> (h, Err err)
      | Panic p \<Rightarrow> (h, Panic p)
      | Ok g \<Rightarrow>
          (case slice_to ciphertext (NonceSize g) of
             Err err \<Rightarrow> (h, Err err)
           | Panic p \<Rightarrow> (h, Panic p)
           | Ok nonce \<Rightarrow>
               (case slice_from ciphertext (NonceSize g) of
                  Err err \<Rightarrow> (h, Err err)
                | Panic p \<Rightarrow> (h, Panic p)
                | Ok ciphertext' \<Rightarrow> Open_heap g h nil nonce ciphertext' nil)))"

fun Encrypt_heap :: "Cipher \<Rightarrow> Reader \<Rightarrow> heap \<Rightarrow> slice \<Rightarrow> heap \<times> slice result" where
  "Encrypt_heap (Default d) rand h value = (h, Ok value)"
| "Encrypt_heap (Base64Cipher d c) rand h value =
     (case Encrypt_heap c rand h value of
        (h1, Err err) \<Rightarrow> (h1, Err err)
      | (h1, Panic p) \<Rightarrow> (h1, Panic p)
      | (h1, Ok encrypted) \<Rightarrow>
          (let text = EncodeToString (load h1 encrypted) in
           case make h1 (length text) of
             (h2, out) \<Rightarrow> (copy h2 out text, Ok out)))"
| "Encrypt_heap (CFBCipher d c) rand h value = CFBCipher_Encrypt_heap c rand h value"
| "Encrypt_heap (GCMCipher d c) rand h value = GCMCipher_Encrypt_heap c rand h value"

fun Decrypt_heap :: "Cipher \<Rightarrow> heap \<Rightarrow> slice \<Rightarrow> heap \<times> slice result" where
  "Decrypt_heap (Default d) h ciphertext = (h, Ok ciphertext)"
| "Decrypt_heap (Base64Cipher d c) h ciphertext =
     (case make h (len ciphertext div 4 * 3) of
        (h1, dbuf) \<Rightarrow>
          (case DecodeString (load h ciphertext) of
             (decoded, Some err) \<Rightarrow>
               (copy h1 dbuf decoded,
                Err (Errorf ''failed to base64 decode value %s'' [ErrOp err]))
           | (decoded, None) \<Rightarrow>
               (case slice_to dbuf (length decoded) of
                  Err err \<Rightarrow> (h1, Err err)
                | Panic p \<Rightarrow> (h1, Panic p)
                | Ok encrypted \<Rightarrow> Decrypt_heap c (copy h1 dbuf decoded) encrypted)))"
| "Decrypt_heap (CFBCipher d c) h ciphertext = CFBCipher_Decrypt_heap c h ciphertext"
| "Decrypt_heap (GCMCipher d c) h ciphertext = GCMCipher_Decrypt_heap c h ciphertext"

section \<open>Notions used to state the properties\<close>

text \<open>
  The key stream of a CFB decryption: the encryptions of the first \<open>n\<close> blocks of 16 bytes
  of the ciphertext, the initialization vector being the first of them.
\<close>

definition keystream :: "Block \<Rightarrow> bytes \<Rightarrow> nat \<Rightarrow> bytes" where
  "keystream c ct n = concat (map (\<lambda>j. Block_Encrypt c (take 16 (drop (16 * j) ct))) [0..<n])"

text \<open>
  The two parts that \<^verbatim>\<open>Seal\<close> appends for a 12-byte nonce and no additional data: the
  body (the plaintext in counter mode) and the tag of a body.
\<close>

definition sealed :: "Block \<Rightarrow> bytes \<Rightarrow> bytes \<Rightarrow> bytes" where
  "sealed c nonce plaintext = counterCrypt c (gcmInc32 (deriveCounter nonce)) plaintext"

definition tag_of :: "Block \<Rightarrow> bytes \<Rightarrow> bytes \<Rightarrow> bytes" where
  "tag_of c nonce body = auth (gcm c 12 16) body [] (crypt c (deriveCounter nonce))"

text \<open>
  The number of random bytes a call of \<^verbatim>\<open>Encrypt\<close> reads, and whether a plaintext is
  within the length that \<^verbatim>\<open>Seal\<close> accepts where the call reaches it.
\<close>

fun entropy :: "Cipher \<Rightarrow> nat" where
  "entropy (Default d) = 0"
| "entropy (Base64Cipher d c) = entropy c"
| "entropy (CFBCipher d c) = 16"
| "entropy (GCMCipher d c) = 12"

fun sealable :: "Cipher \<Rightarrow> bytes \<Rightarrow> bool" where
  "sealable (Default d) p = True"
| "sealable (Base64Cipher d c) p = sealable c p"
| "sealable (CFBCipher d c) p = True"
| "sealable (GCMCipher d c) p = (length p \<le> (2 ^ 32 - 2) * 16)"

text \<open>
  The text that \<^verbatim>\<open>base64.StdEncoding\<close> decodes without an error: with the new line
  characters left out, a run of alphabet characters followed by nothing, by \<^verbatim>\<open>==\<close> or by
  \<^verbatim>\<open>=\<close>, so that the length is a multiple of four. \<open>accept j\<close> is the same with \<open>j\<close>
  characters of the run read already.
\<close>

definition in_alphabet :: "byte \<Rightarrow> bool" where
  "in_alphabet c = (c \<in> set encodeStd)"

definition accept :: "nat \<Rightarrow> bytes \<Rightarrow> bool" where
  "accept j t =
     (let k = j + length (takeWhile in_alphabet t);
          padding = dropWhile in_alphabet t
      in (k mod 4 = 0 \<and> padding = [])
         \<or> (k mod 4 = 2 \<and> padding = [padChar, padChar])
         \<or> (k mod 4 = 3 \<and> padding = [padChar]))"

definition valid_base64 :: "bytes \<Rightarrow> bool" where
  "valid_base64 s = accept 0 (filter (\<lambda>c. \<not> is_newline c) s)"

text \<open>
  On the heap: a slice lies within its array (\<open>valid\<close>); every array that existed
  before a call has its contents after it (\<open>preserved\<close>), or every array but one
  (\<open>preserved_but\<close>); a call returns a slice of an array it allocated or the nil slice
  (\<open>fresh\<close>), or else a slice of its argument's array (\<open>fresh_or_within\<close>).
\<close>

definition valid :: "heap \<Rightarrow> slice \<Rightarrow> bool" where
  "valid h s = (array s < length h \<and> len s \<le> cap s \<and> off s + cap s \<le> length (h ! array s))"

definition preserved :: "heap \<Rightarrow> heap \<Rightarrow> bool" where
  "preserved h h' = (take (length h) h' = h)"

definition preserved_but :: "nat \<Rightarrow> heap \<Rightarrow> heap \<Rightarrow> bool" where
  "preserved_but a h h' = (length h \<le> length h' \<and> (take (length h) h')[a := h ! a] = h)"

definition fresh :: "heap \<Rightarrow> slice result \<Rightarrow> bool" where
  "fresh h r = (case r of Ok s \<Rightarrow> length h \<le> array s \<or> s = nil | Err err \<Rightarrow> True | Panic p \<Rightarrow> True)"

definition fresh_or_within :: "slice \<Rightarrow> heap \<Rightarrow> slice result \<Rightarrow> bool" where
  "fresh_or_within a h r =
     (case r of Ok s \<Rightarrow> length h \<le> array s \<or> s = nil \<or> array s = array a
      | Err err \<Rightarrow> True | Panic p \<Rightarrow> True)"

text \<open>
  A result on the heap agrees with a result on byte sequences: the same error, the same
  panic, or a slice that holds the bytes returned.
\<close>

definition agrees :: "heap \<times> slice result \<Rightarrow> bytes result \<Rightarrow> bool" where
  "agrees hr r =
     (case hr of
        (h', Ok s) \<Rightarrow> r = Ok (load h' s)
      | (h', Err err) \<Rightarrow> r = Err err
      | (h', Panic p) \<Rightarrow> r = Panic p)"

section \<open>Lengths\<close>

lemma length_bytes_of_block: "length (bytes_of_block w) = 16"
  by (simp add: bytes_of_block_def)

lemma length_Block_Encrypt: "length (Block_Encrypt c src) = 16"
  by (simp add: Block_Encrypt_def length_bytes_of_block)

lemma length_xor_bytes: "length (xor_bytes a k) = min (length a) (length k)"
  by (simp add: xor_bytes_def)

lemma length_XORKeyStream: "length (XORKeyStream x src) = length src"
proof (induction x src rule: XORKeyStream.induct)
  case (1 x)
  then show ?case by simp
next
  case (2 x s src)
  then show ?case
    by (simp add: Let_def length_xor_bytes length_Block_Encrypt)
qed

lemma CFBCipher_Encrypt_length:
  "CFBCipher_Encrypt c rand v = Ok ct \<Longrightarrow> length ct = 16 + length v"
  by (auto simp: CFBCipher_Encrypt_def ReadFull_def NewCFBEncrypter_def newCFB_def BlockSize_def
      length_XORKeyStream split: if_splits result.splits)

section \<open>The null cipher and the in-place helpers\<close>

lemma DefaultCipher_Encrypt_eq: "DefaultCipher_Encrypt d = Ok"
  by (rule ext) (simp add: DefaultCipher_Encrypt_def)

lemma DefaultCipher_Decrypt_eq: "DefaultCipher_Decrypt d = Ok"
  by (rule ext) (simp add: DefaultCipher_Decrypt_def)

text \<open>
  Whatever struct the interface value points to, the in-place helpers run \<open>into\<close> with the
  methods of the embedded \<^verbatim>\<open>DefaultCipher\<close>.
\<close>

lemma EncryptInto_eq: "EncryptInto c s = into Ok s"
  by (cases c) (simp_all add: DefaultCipher_EncryptInto_def DefaultCipher_Encrypt_eq)

lemma DecryptInto_eq: "DecryptInto c s = into Ok s"
  by (cases c) (simp_all add: DefaultCipher_DecryptInto_def DefaultCipher_Decrypt_eq)

lemma EncryptInto_unchanged: "EncryptInto c (Some v) = (Ok (), Some v)"
  by (simp add: EncryptInto_eq into_def)

lemma DecryptInto_unchanged: "DecryptInto c (Some v) = (Ok (), Some v)"
  by (simp add: DecryptInto_eq into_def)

text \<open>
  C9. The null cipher's \<^verbatim>\<open>Encrypt\<close> and \<^verbatim>\<open>Decrypt\<close> are identities: for every byte
  sequence \<open>x\<close> each returns \<open>x\<close> with a nil error, called on the struct or through the
  interface.
\<close>

theorem Null_cipher_identity:
  "DefaultCipher_Encrypt d x = Ok x \<and> DefaultCipher_Decrypt d x = Ok x
   \<and> Encrypt (Default d) rand x = Ok x \<and> Decrypt (Default d) x = Ok x"
  by (simp add: DefaultCipher_Encrypt_def DefaultCipher_Decrypt_def)

text \<open>
  C8. On a nil pointer and on a pointer to the empty string, \<open>into\<close> (with any codec
  function) and with it \<^verbatim>\<open>EncryptInto\<close> and \<^verbatim>\<open>DecryptInto\<close> of every cipher variant return
  a nil error and leave the pointer's target as it was.
\<close>

theorem Into_nil_or_empty_is_noop:
  "into f None = (Ok (), None) \<and> into f (Some []) = (Ok (), Some [])
   \<and> EncryptInto c None = (Ok (), None) \<and> EncryptInto c (Some []) = (Ok (), Some [])
   \<and> DecryptInto c None = (Ok (), None) \<and> DecryptInto c (Some []) = (Ok (), Some [])"
  by (simp add: EncryptInto_eq DecryptInto_eq into_def)

text \<open>
  C1. The claim is that \<^verbatim>\<open>EncryptInto\<close> and \<^verbatim>\<open>DecryptInto\<close> of a variant that embeds
  \<^verbatim>\<open>DefaultCipher\<close> run that variant's own \<^verbatim>\<open>Encrypt\<close> and \<^verbatim>\<open>Decrypt\<close>. The code does
  not: for every cipher and every string both helpers return a nil error and leave the
  string as it was. On the CFB cipher for the key of 16 zero bytes and a pointer to the
  string \<^verbatim>\<open>a\<close> the string stays \<^verbatim>\<open>a\<close>, although the cipher's \<^verbatim>\<open>Encrypt\<close> never returns
  \<^verbatim>\<open>a\<close> for \<^verbatim>\<open>a\<close> (its result has 17 bytes) and its \<^verbatim>\<open>Decrypt\<close> fails on \<^verbatim>\<open>a\<close>.
\<close>

theorem Into_runs_base_methods_on_CFBCipher:
  "EncryptInto c (Some v) = (Ok (), Some v) \<and> DecryptInto c (Some v) = (Ok (), Some v)
   \<and> NewCFBCipher (replicate 16 0)
       = Ok (CFBCipher DefaultCipher (Block (aes_encrypt (replicate 16 0))))
   \<and> EncryptInto (CFBCipher DefaultCipher (Block (aes_encrypt (replicate 16 0)))) (Some [0x61])
       = (Ok (), Some [0x61])
   \<and> Encrypt (CFBCipher DefaultCipher (Block (aes_encrypt (replicate 16 0)))) rand [0x61]
       \<noteq> Ok [0x61]
   \<and> DecryptInto (CFBCipher DefaultCipher (Block (aes_encrypt (replicate 16 0)))) (Some [0x61])
       = (Ok (), Some [0x61])
   \<and> Decrypt (CFBCipher DefaultCipher (Block (aes_encrypt (replicate 16 0)))) [0x61]
       \<noteq> Ok [0x61]"
proof -
  have "CFBCipher_Encrypt k rand [0x61] \<noteq> Ok [0x61]" for k
    using CFBCipher_Encrypt_length [of k rand "[0x61]" "[0x61]"] by auto
  then show ?thesis
    by (simp add: NewCFBCipher_def aes_NewCipher_def EncryptInto_unchanged DecryptInto_unchanged
        CFBCipher_Decrypt_def)
qed

section \<open>Short inputs and key lengths\<close>

text \<open>
  C2. The claim is that \<^verbatim>\<open>Decrypt\<close> of the GCM variant returns an error on an input
  shorter than the nonce (12 bytes). The code panics there: the slice expressions run
  out of range before \<^verbatim>\<open>Open\<close> is reached.
\<close>

theorem GCMCipher_Decrypt_short_input_panics:
  "length ciphertext < 12 \<Longrightarrow>
   Decrypt (GCMCipher d c) ciphertext = Panic SliceBoundsOutOfRange"
  by (simp add: GCMCipher_Decrypt_def NewGCM_def BlockSize_def NonceSize_def)

theorem GCMCipher_Decrypt_short_input_panics_witness:
  "length ([] :: bytes) < 12
   \<and> Decrypt (GCMCipher DefaultCipher (Block (aes_encrypt (replicate 32 0)))) []
       = Panic SliceBoundsOutOfRange"
  using GCMCipher_Decrypt_short_input_panics
    [of "[]" DefaultCipher "Block (aes_encrypt (replicate 32 0))"]
  by simp

text \<open>
  C10. \<^verbatim>\<open>NewCFBCipher\<close> and \<^verbatim>\<open>NewGCMCipher\<close> return a cipher exactly for secrets of 16,
  24 and 32 bytes; for every other length they return \<^verbatim>\<open>aes.KeySizeError\<close> and no cipher.
\<close>

theorem New_cipher_key_length:
  "NewCFBCipher secret =
     (if length secret = 16 \<or> length secret = 24 \<or> length secret = 32
      then Ok (CFBCipher DefaultCipher (Block (aes_encrypt secret)))
      else Err (KeySizeError (length secret)))
   \<and> NewGCMCipher secret =
     (if length secret = 16 \<or> length secret = 24 \<or> length secret = 32
      then Ok (GCMCipher DefaultCipher (Block (aes_encrypt secret)))
      else Err (KeySizeError (length secret)))"
  by (simp add: NewCFBCipher_def NewGCMCipher_def aes_NewCipher_def)

section \<open>Cipher feedback mode: key stream and round trip\<close>

lemma xor_bytes_Nil [simp]: "xor_bytes [] k = []" "xor_bytes a [] = []"
  by (simp_all add: xor_bytes_def)

lemma xor_bytes_cancel: "length a \<le> length k \<Longrightarrow> xor_bytes (xor_bytes a k) k = a"
proof (induction a arbitrary: k)
  case Nil
  then show ?case by simp
next
  case (Cons x a)
  then obtain y k' where k: "k = y # k'" by (cases k) auto
  with Cons show ?case by (simp add: xor_bytes_def xor.assoc)
qed

lemma xor_bytes_append:
  "length k1 = n \<Longrightarrow> xor_bytes a (k1 @ k2) = xor_bytes (take n a) k1 @ xor_bytes (drop n a) k2"
  by (auto simp add: xor_bytes_def zip_append2)

lemma keystream_Suc:
  "length nxt = 16 \<Longrightarrow>
   keystream c (nxt @ src) (Suc n) = Block_Encrypt c nxt @ keystream c src n"
proof -
  assume len: "length nxt = 16"
  have "[0..<Suc n] = 0 # map Suc [0..<n]"
    by (simp add: upt_conv_Cons map_Suc_upt del: upt_Suc)
  then show ?thesis using len
    by (simp add: keystream_def comp_def del: upt_Suc)
qed

lemma blocks_Suc: "l \<noteq> 0 \<Longrightarrow> (l + 15) div 16 = Suc ((l - 16 + 15) div 16)"
  by (cases "16 \<le> l") auto

lemma XORKeyStream_step:
  "src \<noteq> [] \<Longrightarrow>
   XORKeyStream (cfb c nxt d) src =
     xor_bytes (take 16 src) (Block_Encrypt c nxt)
     @ XORKeyStream
         (cfb c (if d then take 16 src else xor_bytes (take 16 src) (Block_Encrypt c nxt)) d)
         (drop 16 src)"
  by (cases src) (simp_all add: Let_def)

lemma XORKeyStream_decrypt_keystream:
  "length nxt = 16 \<Longrightarrow>
   XORKeyStream (cfb c nxt True) src
     = xor_bytes src (keystream c (nxt @ src) ((length src + 15) div 16))"
proof (induction "length src" arbitrary: src nxt rule: less_induct)
  case less
  show ?case
  proof (cases "src = []")
    case True
    then show ?thesis by simp
  next
    case False
    have ks: "keystream c (nxt @ src) ((length src + 15) div 16)
        = Block_Encrypt c nxt @ keystream c src ((length src - 16 + 15) div 16)"
      using keystream_Suc [OF less.prems] blocks_Suc [of "length src"] False by simp
    have step: "XORKeyStream (cfb c nxt True) src
        = xor_bytes (take 16 src) (Block_Encrypt c nxt)
          @ XORKeyStream (cfb c (take 16 src) True) (drop 16 src)"
      using XORKeyStream_step [OF False, of c nxt True] by simp
    have rest: "XORKeyStream (cfb c (take 16 src) True) (drop 16 src)
        = xor_bytes (drop 16 src) (keystream c src ((length src - 16 + 15) div 16))"
    proof (cases "length src \<le> 16")
      case True
      then show ?thesis by simp
    next
      case long: False
      then have "length (drop 16 src) < length src" and "length (take 16 src) = 16"
        by simp_all
      from less.hyps [OF this] show ?thesis by simp
    qed
    show ?thesis
      unfolding step rest ks xor_bytes_append [OF length_Block_Encrypt] ..
  qed
qed

lemma XORKeyStream_roundtrip:
  "length iv = 16 \<Longrightarrow>
   XORKeyStream (cfb c iv True) (XORKeyStream (cfb c iv False) src) = src"
proof (induction "length src" arbitrary: src iv rule: less_induct)
  case less
  show ?case
  proof (cases "src = []")
    case True
    then show ?thesis by simp
  next
    case False
    let ?out = "Block_Encrypt c iv"
    let ?dst = "xor_bytes (take 16 src) ?out"
    let ?R = "XORKeyStream (cfb c ?dst False) (drop 16 src)"
    have enc: "XORKeyStream (cfb c iv False) src = ?dst @ ?R"
      using XORKeyStream_step [OF False, of c iv False] by simp
    have ldst: "length ?dst = min (length src) 16"
      by (simp add: length_xor_bytes length_Block_Encrypt)
    have lR: "length ?R = length src - 16"
      by (simp add: length_XORKeyStream)
    have td: "take 16 (?dst @ ?R) = ?dst" "drop 16 (?dst @ ?R) = ?R"
      using ldst lR by (cases "length src \<le> 16"; simp)+
    have unxor: "xor_bytes ?dst ?out = take 16 src"
      by (rule xor_bytes_cancel) (simp add: length_Block_Encrypt)
    have "length ?dst \<noteq> 0"
      unfolding ldst using False by (cases src) simp_all
    then have "?dst \<noteq> []"
      by (rule contrapos_nn) (simp only: list.size)
    then have ne: "?dst @ ?R \<noteq> []"
      by (simp only: append_is_Nil_conv simp_thms not_False_eq_True)
    have rest: "XORKeyStream (cfb c ?dst True) ?R = drop 16 src"
    proof (cases "length src \<le> 16")
      case True
      then show ?thesis by simp
    next
      case long: False
      then have "length (drop 16 src) < length src" and "length ?dst = 16"
        using ldst by simp_all
      from less.hyps [OF this] show ?thesis .
    qed
    have "XORKeyStream (cfb c iv True) (?dst @ ?R)
        = xor_bytes (take 16 (?dst @ ?R)) ?out
          @ XORKeyStream (cfb c (take 16 (?dst @ ?R)) True) (drop 16 (?dst @ ?R))"
      using XORKeyStream_step [OF ne, of c iv True] by simp
    also have "\<dots> = take 16 src @ drop 16 src"
      unfolding td unxor rest ..
    finally show ?thesis
      unfolding enc by simp
  qed
qed

lemma length_keystream: "length (keystream c ct n) = 16 * n"
  by (induction n) (simp_all add: keystream_def length_Block_Encrypt)

text \<open>
  C6. \<^verbatim>\<open>Decrypt\<close> of the CFB variant returns the error of a short ciphertext exactly on
  inputs of fewer than 16 bytes. On every other input it returns, with a nil error, the
  bytes after the first 16 XORed with the key stream: the encryptions of the
  ciphertext's blocks, the first 16 bytes (the initialization vector) being the first
  block. The result has 16 bytes fewer than the input; nothing is checked, so a changed
  ciphertext decrypts to other bytes with no error.
\<close>

theorem CFBCipher_Decrypt_short_or_keystream:
  "Decrypt (CFBCipher d c) ct =
     (if length ct < 16
      then Err (Errorf ''encrypted value should be at least %d bytes, but is only %d bytes''
                  [IntOp 16, IntOp (length ct)])
      else Ok (xor_bytes (drop 16 ct) (keystream c ct ((length ct - 16 + 15) div 16))))
   \<and> length (xor_bytes (drop 16 ct) (keystream c ct ((length ct - 16 + 15) div 16)))
       = length ct - 16"
proof -
  have "XORKeyStream (cfb c (take 16 ct) True) (drop 16 ct)
      = xor_bytes (drop 16 ct) (keystream c ct ((length ct - 16 + 15) div 16))"
    if "16 \<le> length ct"
    using XORKeyStream_decrypt_keystream [of "take 16 ct" c "drop 16 ct"] that by simp
  then show ?thesis
    by (simp add: CFBCipher_Decrypt_def NewCFBDecrypter_def newCFB_def BlockSize_def
        length_xor_bytes length_keystream)
qed

lemma CFBCipher_roundtrip:
  "16 \<le> length (pending rand) \<Longrightarrow>
   \<exists>ct. CFBCipher_Encrypt c rand p = Ok ct \<and> CFBCipher_Decrypt c ct = Ok p"
  by (simp add: CFBCipher_Encrypt_def CFBCipher_Decrypt_def ReadFull_def NewCFBEncrypter_def
      NewCFBDecrypter_def newCFB_def BlockSize_def length_XORKeyStream XORKeyStream_roundtrip)

section \<open>Galois counter mode: sealing and opening\<close>

lemma counterCrypt_step:
  "src \<noteq> [] \<Longrightarrow>
   counterCrypt c ctr src =
     xor_bytes (take 16 src) (bytes_of_block (crypt c ctr))
     @ counterCrypt c (gcmInc32 ctr) (drop 16 src)"
  by (cases src) simp_all

lemma length_counterCrypt: "length (counterCrypt c ctr src) = length src"
proof (induction c ctr src rule: counterCrypt.induct)
  case (1 c ctr)
  then show ?case by simp
next
  case (2 c ctr s src)
  then show ?case by (simp add: length_xor_bytes length_bytes_of_block)
qed

lemma counterCrypt_involution: "counterCrypt c ctr (counterCrypt c ctr src) = src"
proof (induction "length src" arbitrary: src ctr rule: less_induct)
  case less
  show ?case
  proof (cases "src = []")
    case True
    then show ?thesis by simp
  next
    case False
    let ?ks = "bytes_of_block (crypt c ctr)"
    let ?dst = "xor_bytes (take 16 src) ?ks"
    let ?R = "counterCrypt c (gcmInc32 ctr) (drop 16 src)"
    have enc: "counterCrypt c ctr src = ?dst @ ?R"
      by (rule counterCrypt_step [OF False])
    have ldst: "length ?dst = min (length src) 16"
      by (simp add: length_xor_bytes length_bytes_of_block)
    have lR: "length ?R = length src - 16"
      by (simp add: length_counterCrypt)
    have td: "take 16 (?dst @ ?R) = ?dst" "drop 16 (?dst @ ?R) = ?R"
      using ldst lR by (cases "length src \<le> 16"; simp)+
    have unxor: "xor_bytes ?dst ?ks = take 16 src"
      by (rule xor_bytes_cancel) (simp add: length_bytes_of_block)
    have "length ?dst \<noteq> 0"
      unfolding ldst using False by (cases src) simp_all
    then have "?dst \<noteq> []"
      by (rule contrapos_nn) (simp only: list.size)
    then have ne: "?dst @ ?R \<noteq> []"
      by (simp only: append_is_Nil_conv simp_thms not_False_eq_True)
    have rest: "counterCrypt c (gcmInc32 ctr) ?R = drop 16 src"
    proof (cases "length src \<le> 16")
      case True
      then show ?thesis by simp
    next
      case long: False
      then have "length (drop 16 src) < length src" by simp
      from less.hyps [OF this] show ?thesis .
    qed
    have "counterCrypt c ctr (?dst @ ?R)
        = xor_bytes (take 16 (?dst @ ?R)) ?ks
          @ counterCrypt c (gcmInc32 ctr) (drop 16 (?dst @ ?R))"
      by (rule counterCrypt_step [OF ne])
    also have "\<dots> = take 16 src @ drop 16 src"
      unfolding td unxor rest ..
    finally show ?thesis
      unfolding enc by simp
  qed
qed

lemma length_auth: "length (auth g ct ad m) = 16"
  by (simp add: auth_def Let_def length_bytes_of_block)

lemma Seal_eq:
  "length nonce = 12 \<Longrightarrow> length p \<le> (2 ^ 32 - 2) * 16 \<Longrightarrow>
   Seal (gcm c 12 16) dst nonce p []
     = Ok (dst @ sealed c nonce p @ tag_of c nonce (sealed c nonce p))"
  by (simp add: Seal_def BlockSize_def Let_def sealed_def tag_of_def)

lemma Open_eq:
  "length nonce = 12 \<Longrightarrow> length t = 16 \<Longrightarrow> length body \<le> (2 ^ 32 - 2) * 16 \<Longrightarrow>
   Open (gcm c 12 16) [] nonce (body @ t) []
     = (if tag_of c nonce body = t then Ok (sealed c nonce body) else Err errOpen)"
  by (simp add: Open_def BlockSize_def Let_def sealed_def tag_of_def length_auth)

lemma GCMCipher_Encrypt_eq:
  "12 \<le> length (pending rand) \<Longrightarrow> length p \<le> (2 ^ 32 - 2) * 16 \<Longrightarrow>
   GCMCipher_Encrypt c rand p
     = Ok (take 12 (pending rand) @ sealed c (take 12 (pending rand)) p
           @ tag_of c (take 12 (pending rand)) (sealed c (take 12 (pending rand)) p))"
  by (simp add: GCMCipher_Encrypt_def NewGCM_def BlockSize_def NonceSize_def ReadFull_def Seal_eq)

lemma GCMCipher_Decrypt_eq:
  "length nonce = 12 \<Longrightarrow> length t = 16 \<Longrightarrow> length body \<le> (2 ^ 32 - 2) * 16 \<Longrightarrow>
   GCMCipher_Decrypt c (nonce @ body @ t)
     = (if tag_of c nonce body = t then Ok (sealed c nonce body) else Err errOpen)"
  by (simp add: GCMCipher_Decrypt_def NewGCM_def BlockSize_def NonceSize_def Open_eq)

lemma length_sealed: "length (sealed c nonce p) = length p"
  by (simp add: sealed_def length_counterCrypt)

lemma length_tag_of: "length (tag_of c nonce body) = 16"
  by (simp add: tag_of_def length_auth)

lemma sealed_involution: "sealed c nonce (sealed c nonce p) = p"
  by (simp add: sealed_def counterCrypt_involution)

lemma GCMCipher_roundtrip:
  "12 \<le> length (pending rand) \<Longrightarrow> length p \<le> (2 ^ 32 - 2) * 16 \<Longrightarrow>
   \<exists>ct. GCMCipher_Encrypt c rand p = Ok ct \<and> GCMCipher_Decrypt c ct = Ok p"
  by (simp add: GCMCipher_Encrypt_eq GCMCipher_Decrypt_eq length_sealed length_tag_of
      sealed_involution)

lemma GCMCipher_Encrypt_too_large:
  "12 \<le> length (pending rand) \<Longrightarrow> (2 ^ 32 - 2) * 16 < length p \<Longrightarrow>
   GCMCipher_Encrypt c rand p = Panic (PanicString ''crypto/cipher: message too large for GCM'')"
  by (simp add: GCMCipher_Encrypt_def NewGCM_def BlockSize_def NonceSize_def ReadFull_def Seal_def)

lemma byte_succ_neq: "x + 1 \<noteq> (x :: byte)"
  by simp

text \<open>
  C5. With the secret of 32 zero bytes and the plaintext \<^verbatim>\<open>hello world\<close>, whenever the
  random source delivers the 12 bytes of the nonce: \<^verbatim>\<open>NewGCMCipher\<close> returns a cipher;
  its \<^verbatim>\<open>Encrypt\<close> returns 39 bytes, the 12-byte nonce, the 11-byte body and the 16-byte
  tag; \<^verbatim>\<open>Decrypt\<close> of these bytes returns \<^verbatim>\<open>hello world\<close>; and \<^verbatim>\<open>Decrypt\<close> of the same
  bytes with the last one incremented by 1 returns the error of \<^verbatim>\<open>Open\<close> (message
  authentication failed).
\<close>

theorem GCM_hello_world:
  assumes rand: "12 \<le> length (pending rand)"
  shows "NewGCMCipher (replicate 32 0)
           = Ok (GCMCipher DefaultCipher (Block (aes_encrypt (replicate 32 0))))
    \<and> (\<exists>nonce body tag.
          Encrypt (GCMCipher DefaultCipher (Block (aes_encrypt (replicate 32 0)))) rand
            (map of_char ''hello world'') = Ok (nonce @ body @ tag)
        \<and> length (nonce @ body @ tag) = 39
        \<and> nonce = take 12 (pending rand) \<and> length nonce = 12
        \<and> body = sealed (Block (aes_encrypt (replicate 32 0))) nonce (map of_char ''hello world'')
        \<and> length body = 11
        \<and> tag = tag_of (Block (aes_encrypt (replicate 32 0))) nonce body \<and> length tag = 16
        \<and> Decrypt (GCMCipher DefaultCipher (Block (aes_encrypt (replicate 32 0))))
            (nonce @ body @ tag) = Ok (map of_char ''hello world'')
        \<and> Decrypt (GCMCipher DefaultCipher (Block (aes_encrypt (replicate 32 0))))
            ((nonce @ body @ tag)[38 := (nonce @ body @ tag) ! 38 + 1]) = Err errOpen)"
proof -
  let ?c = "Block (aes_encrypt (replicate 32 0))"
  let ?p = "map of_char ''hello world'' :: bytes"
  define nonce where "nonce = take 12 (pending rand)"
  define body where "body = sealed ?c nonce ?p"
  define tag where "tag = tag_of ?c nonce body"
  have ln: "length nonce = 12" using rand by (simp add: nonce_def)
  have lb: "length body = 11" by (simp add: body_def length_sealed)
  have lt: "length tag = 16" by (simp add: tag_def length_tag_of)
  have small: "length ?p \<le> (2 ^ 32 - 2) * 16" by simp
  have enc: "GCMCipher_Encrypt ?c rand ?p = Ok (nonce @ body @ tag)"
    unfolding GCMCipher_Encrypt_eq [OF rand small] nonce_def body_def tag_def ..
  have lb': "length body \<le> (2 ^ 32 - 2) * 16" unfolding lb by simp
  have dec: "GCMCipher_Decrypt ?c (nonce @ body @ tag) = Ok ?p"
    unfolding GCMCipher_Decrypt_eq [OF ln lt lb']
    by (simp add: tag_def body_def sealed_involution)
  let ?tag' = "tag[15 := tag ! 15 + 1]"
  have upd: "(nonce @ body @ tag)[38 := (nonce @ body @ tag) ! 38 + 1] = nonce @ body @ ?tag'"
    using ln lb lt by (simp add: list_update_append nth_append)
  have "?tag' ! 15 \<noteq> tag ! 15" using lt by (simp add: byte_succ_neq)
  then have neq: "tag_of ?c nonce body \<noteq> ?tag'"
    unfolding tag_def [symmetric] by metis
  have lt': "length ?tag' = 16" using lt by simp
  have bad: "GCMCipher_Decrypt ?c (nonce @ body @ ?tag') = Err errOpen"
    unfolding GCMCipher_Decrypt_eq [OF ln lt' lb'] using neq by simp
  have new: "NewGCMCipher (replicate 32 0) = Ok (GCMCipher DefaultCipher ?c)"
    by (simp add: NewGCMCipher_def aes_NewCipher_def)
  have "length (nonce @ body @ tag) = 39" using ln lb lt by simp
  with enc dec bad upd ln lb lt new show ?thesis
    unfolding Encrypt.simps Decrypt.simps nonce_def [symmetric] body_def [symmetric]
      tag_def [symmetric]
    by (intro conjI exI [of _ nonce] exI [of _ body] exI [of _ tag])
      (simp_all only: nonce_def body_def tag_def)
qed

theorem GCM_hello_world_witness:
  "12 \<le> length (pending (Reader (replicate 12 0) EOF))
   \<and> (\<exists>ct. Encrypt (GCMCipher DefaultCipher (Block (aes_encrypt (replicate 32 0))))
               (Reader (replicate 12 0) EOF) (map of_char ''hello world'') = Ok ct
          \<and> length ct = 39
          \<and> Decrypt (GCMCipher DefaultCipher (Block (aes_encrypt (replicate 32 0)))) ct
              = Ok (map of_char ''hello world'')
          \<and> Decrypt (GCMCipher DefaultCipher (Block (aes_encrypt (replicate 32 0))))
               (ct[38 := ct ! 38 + 1]) = Err errOpen)"
proof -
  have r: "12 \<le> length (pending (Reader (replicate 12 (0 :: byte)) EOF))" by simp
  from GCM_hello_world [OF r] r show ?thesis by blast
qed

section \<open>Base64: decoding an encoding\<close>

lemma decodeMap_encodeStd_all:
  "list_all (\<lambda>i. decodeMap (encodeStd ! i) = of_nat i) [0..<64]"
  by (simp add: decodeMap_def encodeStd_def upt_rec [of _ "numeral _"] upt_rec [of 0])

lemma decodeMap_encodeStd: "i < 64 \<Longrightarrow> decodeMap (encodeStd ! i) = of_nat i"
  using decodeMap_encodeStd_all unfolding list_all_iff by simp

lemma mask6: "(0x3F :: 32 word) = mask 6"
  by (simp add: mask_eq_exp_minus_1)

lemma unat_and_63: "unat ((v :: 32 word) AND 0x3F) < 64"
proof -
  have "unat (v AND 0x3F) \<le> unat (0x3F :: 32 word)"
    by (rule word_and_le1 [THEN word_le_nat_alt [THEN iffD1]])
  then show ?thesis by simp
qed

lemma decodeMap_enc64: "decodeMap (enc64 v) = ucast (v AND 0x3F)"
  unfolding enc64_def using decodeMap_encodeStd [OF unat_and_63 [of v]] by simp

lemma decodeMap_enc64_valid: "decodeMap (enc64 v) \<noteq> 0xFF"
proof -
  have "ucast (v AND mask 6) \<noteq> (0xFF :: byte)"
  proof
    assume "ucast (v AND mask 6) = (0xFF :: byte)"
    then have "bit (ucast (v AND mask 6) :: byte) 7 = bit (0xFF :: byte) 7" by simp
    then show False by (simp add: bit_simps)
  qed
  then show ?thesis by (simp add: decodeMap_enc64 mask6)
qed

lemma bytes_of_val:
  fixes s0 s1 s2 :: byte
  defines "val \<equiv> push_bit 16 (ucast s0) OR push_bit 8 (ucast s1) OR ucast s2 :: 32 word"
  shows "ucast (drop_bit 16 val) = s0" "ucast (drop_bit 8 val) = s1" "ucast val = s2"
  unfolding val_def
    apply (rule bit_word_eqI; auto simp: bit_simps dest: bit_imp_le_length)
   apply (rule bit_word_eqI; auto simp: bit_simps dest: bit_imp_le_length)
  apply (rule bit_word_eqI; auto simp: bit_simps dest: bit_imp_le_length)
  done

lemma ucast_ucast_digit: "ucast (ucast (x AND mask 6 :: 32 word) :: byte) = (x AND mask 6 :: 32 word)"
  by (rule bit_word_eqI) (auto simp: bit_simps)

lemma push_drop_mask: "push_bit k (drop_bit k w AND mask m) = (w AND push_bit k (mask m))" for w :: "32 word"
  by (rule bit_word_eqI) (auto simp: bit_simps)

lemma masks: "push_bit 18 (mask 6) OR push_bit 12 (mask 6) OR push_bit 6 (mask 6) OR mask 6 = (mask 24 :: 32 word)"
  by (simp add: mask_eq_exp_minus_1)

lemma digits_val:
  fixes w :: "32 word"
  shows "push_bit 18 (drop_bit 18 w AND mask 6) OR push_bit 12 (drop_bit 12 w AND mask 6)
         OR push_bit 6 (drop_bit 6 w AND mask 6) OR (w AND mask 6) = w AND mask 24"
proof -
  have "push_bit 18 (drop_bit 18 w AND mask 6) OR push_bit 12 (drop_bit 12 w AND mask 6)
         OR push_bit 6 (drop_bit 6 w AND mask 6) OR (w AND mask 6)
       = w AND (push_bit 18 (mask 6) OR push_bit 12 (mask 6) OR push_bit 6 (mask 6) OR mask 6)"
    unfolding push_drop_mask by (simp only: bit.conj_disj_distrib)
  then show ?thesis unfolding masks .
qed

lemma val_mask24:
  fixes s0 s1 s2 :: byte
  shows "(push_bit 16 (ucast s0) OR push_bit 8 (ucast s1) OR ucast s2 :: 32 word) AND mask 24
       = push_bit 16 (ucast s0) OR push_bit 8 (ucast s1) OR ucast s2"
  by (rule bit_word_eqI) (auto simp: bit_simps dest: bit_imp_le_length)

lemma low_bits_zero2:
  fixes s0 s1 :: byte
  shows "(push_bit 16 (ucast s0) OR push_bit 8 (ucast s1) :: 32 word) AND mask 6 = 0"
  by (rule bit_word_eqI) (auto simp: bit_simps dest: bit_imp_le_length)

lemma low_bits_zero1:
  fixes s0 :: byte
  shows "(push_bit 16 (ucast s0) :: 32 word) AND mask 6 = 0"
    "drop_bit 6 (push_bit 16 (ucast s0) :: 32 word) AND mask 6 = 0"
  by (rule bit_word_eqI; auto simp: bit_simps dest: bit_imp_le_length)+

lemma ucast_digit:
  "(ucast (decodeMap (enc64 (drop_bit k v))) :: 32 word) = drop_bit k v AND mask 6"
  "(ucast (decodeMap (enc64 v)) :: 32 word) = v AND mask 6"
  by (simp_all add: decodeMap_enc64 mask6 ucast_ucast_digit)

lemma quantum_bytes_4:
  "V = push_bit 18 (ucast d0) OR push_bit 12 (ucast d1) OR push_bit 6 (ucast d2) OR (ucast d3 :: 32 word)
   \<Longrightarrow> quantum_bytes [d0, d1, d2, d3] = [ucast (drop_bit 16 V), ucast (drop_bit 8 V), ucast V]"
  by (simp add: quantum_bytes_def)

lemma quantum_bytes_3:
  "V = push_bit 18 (ucast d0) OR push_bit 12 (ucast d1) OR (push_bit 6 (ucast d2) :: 32 word)
   \<Longrightarrow> quantum_bytes [d0, d1, d2] = [ucast (drop_bit 16 V), ucast (drop_bit 8 V)]"
  by (simp add: quantum_bytes_def)

lemma quantum_bytes_2:
  "V = push_bit 18 (ucast d0) OR (push_bit 12 (ucast d1) :: 32 word)
   \<Longrightarrow> quantum_bytes [d0, d1] = [ucast (drop_bit 16 V)]"
  by (simp add: quantum_bytes_def)

lemma quantum3:
  fixes s0 s1 s2 :: byte
  assumes val: "val = (push_bit 16 (ucast s0) OR push_bit 8 (ucast s1) OR ucast s2 :: 32 word)"
  shows "quantum_bytes [decodeMap (enc64 (drop_bit 18 val)), decodeMap (enc64 (drop_bit 12 val)),
           decodeMap (enc64 (drop_bit 6 val)), decodeMap (enc64 val)] = [s0, s1, s2]"
proof -
  have "val AND mask 24 = val"
    unfolding val by (rule val_mask24)
  then have V: "val = push_bit 18 (ucast (decodeMap (enc64 (drop_bit 18 val))))
      OR push_bit 12 (ucast (decodeMap (enc64 (drop_bit 12 val))))
      OR push_bit 6 (ucast (decodeMap (enc64 (drop_bit 6 val))))
      OR ucast (decodeMap (enc64 val))"
    unfolding ucast_digit digits_val by (rule sym)
  show ?thesis
    unfolding quantum_bytes_4 [OF V] unfolding val bytes_of_val ..
qed

lemma quantum2:
  fixes s0 s1 :: byte
  assumes val: "val = (push_bit 16 (ucast s0) OR push_bit 8 (ucast s1) :: 32 word)"
  shows "quantum_bytes [decodeMap (enc64 (drop_bit 18 val)), decodeMap (enc64 (drop_bit 12 val)),
           decodeMap (enc64 (drop_bit 6 val))] = [s0, s1]"
proof -
  have val': "val = push_bit 16 (ucast s0) OR push_bit 8 (ucast s1) OR ucast (0 :: byte)"
    unfolding val by simp
  have "val AND mask 24 = val"
    unfolding val' by (rule val_mask24)
  moreover have "val AND mask 6 = 0"
    unfolding val by (rule low_bits_zero2)
  ultimately have "push_bit 18 (drop_bit 18 val AND mask 6)
      OR push_bit 12 (drop_bit 12 val AND mask 6) OR push_bit 6 (drop_bit 6 val AND mask 6) = val"
    using digits_val [of val] by simp
  then have V: "val = push_bit 18 (ucast (decodeMap (enc64 (drop_bit 18 val))))
      OR push_bit 12 (ucast (decodeMap (enc64 (drop_bit 12 val))))
      OR push_bit 6 (ucast (decodeMap (enc64 (drop_bit 6 val))))"
    unfolding ucast_digit by (rule sym)
  show ?thesis
    unfolding quantum_bytes_3 [OF V] unfolding val' bytes_of_val ..
qed

lemma quantum1:
  fixes s0 :: byte
  assumes val: "val = (push_bit 16 (ucast s0) :: 32 word)"
  shows "quantum_bytes [decodeMap (enc64 (drop_bit 18 val)), decodeMap (enc64 (drop_bit 12 val))]
         = [s0]"
proof -
  have val': "val = push_bit 16 (ucast s0) OR push_bit 8 (ucast (0 :: byte)) OR ucast (0 :: byte)"
    unfolding val by simp
  have "val AND mask 24 = val"
    unfolding val' by (rule val_mask24)
  moreover have "val AND mask 6 = 0" "drop_bit 6 val AND mask 6 = 0"
    unfolding val by (rule low_bits_zero1)+
  ultimately have "push_bit 18 (drop_bit 18 val AND mask 6)
      OR push_bit 12 (drop_bit 12 val AND mask 6) = val"
    using digits_val [of val] by simp
  then have V: "val = push_bit 18 (ucast (decodeMap (enc64 (drop_bit 18 val))))
      OR push_bit 12 (ucast (decodeMap (enc64 (drop_bit 12 val))))"
    unfolding ucast_digit by (rule sym)
  show ?thesis
    unfolding quantum_bytes_2 [OF V] unfolding val' bytes_of_val ..
qed

lemma padChar_facts: "decodeMap padChar = 0xFF" "\<not> is_newline padChar"
  by (simp_all add: decodeMap_def encodeStd_def padChar_def is_newline_def
      upt_rec [of _ "numeral _"] upt_rec [of 0])

lemma decode_Encode: "decode n [] si (Encode src) = (src, None)"
proof (induction src arbitrary: si rule: Encode.induct)
  case (1 s0 s1 s2 src)
  define val where "val = (push_bit 16 (ucast s0) OR push_bit 8 (ucast s1) OR ucast s2 :: 32 word)"
  have E: "Encode (s0 # s1 # s2 # src)
      = [enc64 (drop_bit 18 val), enc64 (drop_bit 12 val), enc64 (drop_bit 6 val), enc64 val]
        @ Encode src"
    by (simp add: val_def Let_def)
  show ?case
    unfolding E by (simp add: decodeMap_enc64_valid "1.IH" quantum3 [OF val_def])
next
  case (2 s0 s1)
  define val where "val = (push_bit 16 (ucast s0) OR push_bit 8 (ucast s1) :: 32 word)"
  have E: "Encode [s0, s1]
      = [enc64 (drop_bit 18 val), enc64 (drop_bit 12 val), enc64 (drop_bit 6 val), padChar]"
    by (simp add: val_def Let_def)
  show ?case
    unfolding E by (simp add: decodeMap_enc64_valid padChar_facts quantum2 [OF val_def])
next
  case (3 s0)
  define val where "val = (push_bit 16 (ucast s0) :: 32 word)"
  have E: "Encode [s0] = [enc64 (drop_bit 18 val), enc64 (drop_bit 12 val), padChar, padChar]"
    by (simp add: val_def Let_def)
  show ?case
    unfolding E by (simp add: decodeMap_enc64_valid padChar_facts quantum1 [OF val_def])
next
  case 4
  show ?case by simp
qed

lemma DecodeString_EncodeToString: "DecodeString (EncodeToString src) = (src, None)"
  by (simp add: DecodeString_def EncodeToString_def decode_Encode)

subsection \<open>The texts the decoder accepts\<close>

lemma decodeMap_alphabet: "(decodeMap c \<noteq> 0xFF) = in_alphabet c"
  unfolding in_alphabet_def decodeMap_def encodeStd_def
  by (simp add: upt_rec [of _ "numeral _"] upt_rec [of 0])

lemma alphabet_not_special:
  "in_alphabet c \<Longrightarrow> \<not> is_newline c" "in_alphabet c \<Longrightarrow> c \<noteq> padChar"
  unfolding in_alphabet_def encodeStd_def is_newline_def padChar_def by auto

lemma padChar_not_alphabet: "\<not> in_alphabet padChar"
  using alphabet_not_special(2) by blast

lemma fst_skip_newlines: "fst (skip_newlines cs si) = dropWhile is_newline cs"
  by (induction cs arbitrary: si) simp_all

lemma filter_dropWhile_newline:
  "filter (\<lambda>c. \<not> is_newline c) (dropWhile is_newline cs) = filter (\<lambda>c. \<not> is_newline c) cs"
  by (induction cs) simp_all

lemma skip_newlines_Nil:
  "skip_newlines cs si = ([], si') \<Longrightarrow> filter (\<lambda>c. \<not> is_newline c) cs = []"
  using fst_skip_newlines [of cs si] filter_dropWhile_newline [of cs] by simp

lemma skip_newlines_Cons:
  "skip_newlines cs si = (c' # cs', si') \<Longrightarrow>
   \<not> is_newline c' \<and> filter (\<lambda>c. \<not> is_newline c) cs = c' # filter (\<lambda>c. \<not> is_newline c) cs'"
proof -
  assume a: "skip_newlines cs si = (c' # cs', si')"
  then have d: "dropWhile is_newline cs = c' # cs'"
    using fst_skip_newlines [of cs si] by simp
  then have "\<not> is_newline c'"
    using hd_dropWhile [of is_newline cs] by simp
  then show ?thesis
    using filter_dropWhile_newline [of cs] d by simp
qed

lemma accept_alphabet: "in_alphabet c \<Longrightarrow> accept j (c # t) = accept (Suc j) t"
  by (simp add: accept_def)

lemma accept_4: "accept 4 t = accept 0 t"
  by (simp add: accept_def Let_def)

lemma accept_other:
  "\<not> in_alphabet c \<Longrightarrow> c \<noteq> padChar \<Longrightarrow> accept j (c # t) = False"
  by (simp add: accept_def)

lemma accept_pad:
  "j \<le> 3 \<Longrightarrow>
   accept j (padChar # t) = ((j = 2 \<and> t = [padChar]) \<or> (j = 3 \<and> t = []))"
  by (auto simp add: accept_def padChar_not_alphabet)

lemma accept_Nil: "j \<le> 3 \<Longrightarrow> accept j [] = (j = 0)"
  by (auto simp add: accept_def)

lemma decode_accepts:
  "length dbuf \<le> 3 \<Longrightarrow>
   (snd (decode n dbuf si s) = None) = accept (length dbuf) (filter (\<lambda>c. \<not> is_newline c) s)"
proof (induction s arbitrary: dbuf si)
  case Nil
  then show ?case by (simp add: accept_Nil)
next
  case (Cons c cs)
  let ?f = "filter (\<lambda>c. \<not> is_newline c)"
  consider (alpha) "in_alphabet c" | (newline) "is_newline c"
    | (pad) "c = padChar" | (other) "\<not> in_alphabet c" "\<not> is_newline c" "c \<noteq> padChar"
    by blast
  then show ?case
  proof cases
    case alpha
    show ?thesis
    proof (cases "length dbuf = 3")
      case True
      have "snd (decode n dbuf si (c # cs)) = snd (decode n [] (Suc si) cs)"
        using alpha True by (simp add: decodeMap_alphabet split: prod.splits)
      also have "(\<dots> = None) = accept 0 (?f cs)"
        using Cons.IH [of "[]" "Suc si"] by simp
      finally show ?thesis
        using alpha True by (simp add: alphabet_not_special accept_alphabet accept_4)
    next
      case False
      then have "length (dbuf @ [decodeMap c]) \<le> 3" using Cons.prems by simp
      from Cons.IH [OF this] show ?thesis
        using alpha False by (simp add: decodeMap_alphabet alphabet_not_special accept_alphabet)
    qed
  next
    case newline
    then have "\<not> in_alphabet c" using alphabet_not_special(1) by blast
    then show ?thesis
      using newline Cons.IH [OF Cons.prems] by (simp add: decodeMap_alphabet [symmetric])
  next
    case other
    then show ?thesis
      by (simp add: decodeMap_alphabet [symmetric] accept_other [unfolded decodeMap_alphabet [symmetric]])
  next
    case pad
    have na: "decodeMap c = 0xFF" "\<not> is_newline c"
      using pad padChar_facts by simp_all
    consider "length dbuf < 2" | "length dbuf = 2" | "length dbuf = 3"
      using Cons.prems by linarith
    then show ?thesis
    proof cases
      case 1
      then show ?thesis using na pad Cons.prems by (simp add: accept_pad)
    next
      case 2
      show ?thesis
      proof (cases "skip_newlines cs (Suc si)")
        case (Pair r si')
        show ?thesis
        proof (cases r)
          case Nil
          then show ?thesis
            using na pad 2 Pair skip_newlines_Nil [of cs "Suc si" si']
            by (simp add: accept_pad)
        next
          case (Cons c' cs')
          note r = this
          have f: "\<not> is_newline c'" "?f cs = c' # ?f cs'"
            using skip_newlines_Cons [of cs "Suc si" c' cs' si'] Pair r by simp_all
          show ?thesis
          proof (cases "c' = padChar")
            case False
            then show ?thesis
              using na pad 2 Pair r f by (simp add: accept_pad)
          next
            case True
            show ?thesis
            proof (cases "skip_newlines cs' (Suc si')")
              case (Pair r2 si2)
              note p2 = this
              show ?thesis
              proof (cases r2)
                case Nil
                then show ?thesis
                  using na pad 2 \<open>skip_newlines cs (Suc si) = (r, si')\<close> r f True p2
                    skip_newlines_Nil [of cs' "Suc si'" si2]
                  by (simp add: accept_pad)
              next
                case (Cons c2 cs2)
                then show ?thesis
                  using na pad 2 \<open>skip_newlines cs (Suc si) = (r, si')\<close> r f True p2
                    skip_newlines_Cons [of cs' "Suc si'" c2 cs2 si2]
                  by (simp add: accept_pad)
              qed
            qed
          qed
        qed
      qed
    next
      case 3
      show ?thesis
      proof (cases "skip_newlines cs (Suc si)")
        case (Pair r si')
        show ?thesis
        proof (cases r)
          case Nil
          then show ?thesis
            using na pad 3 Pair skip_newlines_Nil [of cs "Suc si" si']
            by (simp add: accept_pad)
        next
          case (Cons c' cs')
          then show ?thesis
            using na pad 3 Pair skip_newlines_Cons [of cs "Suc si" c' cs' si']
            by (simp add: accept_pad)
        qed
      qed
    qed
  qed
qed

lemma DecodeString_valid: "(snd (DecodeString s) = None) = valid_base64 s"
  using decode_accepts [of "[]" "length s" 0 s] by (simp add: DecodeString_def valid_base64_def)

lemma length_Encode: "length (Encode src) = 4 * ((length src + 2) div 3)"
proof (induction src rule: Encode.induct)
  case (1 s0 s1 s2 src)
  have "(length (s0 # s1 # s2 # src) + 2) div 3 = Suc ((length src + 2) div 3)" by simp
  with 1 show ?case by (simp only: Encode.simps Let_def length_append list.size) simp
qed (simp_all add: Let_def)

text \<open>
  C7. \<^verbatim>\<open>Encrypt\<close> of the base64 wrapper returns the standard padded encoding of what
  the inner cipher's \<^verbatim>\<open>Encrypt\<close> returns (four characters for every three bytes, a text
  the decoder accepts and decodes to the same bytes) and fails exactly as the inner
  \<^verbatim>\<open>Encrypt\<close> fails. \<^verbatim>\<open>Decrypt\<close> returns the error of a failed decoding exactly when its
  input is not a text the standard decoder accepts, and is otherwise the inner cipher's
  \<^verbatim>\<open>Decrypt\<close>, result or failure, of the decoded bytes.
\<close>

theorem Base64Cipher_Encrypt_Decrypt:
  "Encrypt (Base64Cipher d c) rand v =
     (case Encrypt c rand v of
        Ok encrypted \<Rightarrow> Ok (EncodeToString encrypted)
      | Err err \<Rightarrow> Err err
      | Panic p \<Rightarrow> Panic p)
   \<and> length (EncodeToString e) = 4 * ((length e + 2) div 3)
   \<and> valid_base64 (EncodeToString e)
   \<and> DecodeString (EncodeToString e) = (e, None)
   \<and> Decrypt (Base64Cipher d c) s =
     (if valid_base64 s then Decrypt c (fst (DecodeString s))
      else Err (Errorf ''failed to base64 decode value %s''
                  [ErrOp (the (snd (DecodeString s)))]))"
proof -
  have "valid_base64 (EncodeToString e)"
    using DecodeString_valid [of "EncodeToString e"] by (simp add: DecodeString_EncodeToString)
  moreover have "Decrypt (Base64Cipher d c) s =
     (if valid_base64 s then Decrypt c (fst (DecodeString s))
      else Err (Errorf ''failed to base64 decode value %s''
                  [ErrOp (the (snd (DecodeString s)))]))"
    using DecodeString_valid [of s]
    by (cases "DecodeString s") (auto split: option.splits)
  moreover have "length (EncodeToString e) = 4 * ((length e + 2) div 3)"
    by (simp add: EncodeToString_def length_Encode)
  ultimately show ?thesis
    using DecodeString_EncodeToString [of e] by (simp split: result.splits)
qed

section \<open>Round trip\<close>

text \<open>
  C4. The claim holds as stated for the null and the CFB cipher and for base64 over
  them. For the GCM variant (and base64 over it) \<^verbatim>\<open>Seal\<close> accepts plaintexts of up to
  \<open>2^32 - 2\<close> blocks of 16 bytes only: within that length, and when the random source
  delivers the bytes of the initialization vector or nonce, \<^verbatim>\<open>Encrypt\<close> returns a
  ciphertext and \<^verbatim>\<open>Decrypt\<close> of it returns the plaintext, for every cipher and every
  plaintext, the empty one included.
\<close>

theorem Decrypt_Encrypt:
  "entropy c \<le> length (pending rand) \<Longrightarrow> sealable c p \<Longrightarrow>
   \<exists>ct. Encrypt c rand p = Ok ct \<and> Decrypt c ct = Ok p"
proof (induction c)
  case (Default d)
  then show ?case by (simp add: DefaultCipher_Encrypt_def DefaultCipher_Decrypt_def)
next
  case (Base64Cipher d c)
  then obtain ct where "Encrypt c rand p = Ok ct" "Decrypt c ct = Ok p" by auto
  then show ?case by (simp add: DecodeString_EncodeToString)
next
  case (CFBCipher d c)
  then show ?case using CFBCipher_roundtrip [of rand c p] by simp
next
  case (GCMCipher d c)
  then show ?case using GCMCipher_roundtrip [of rand p c] by simp
qed

theorem Decrypt_Encrypt_witness:
  "entropy (Base64Cipher DefaultCipher (GCMCipher DefaultCipher (Block (aes_encrypt (replicate 32 0)))))
     \<le> length (pending (Reader (replicate 12 7) EOF))
   \<and> sealable (Base64Cipher DefaultCipher (GCMCipher DefaultCipher (Block (aes_encrypt (replicate 32 0))))) []
   \<and> (\<exists>ct. Encrypt (Base64Cipher DefaultCipher (GCMCipher DefaultCipher (Block (aes_encrypt (replicate 32 0)))))
             (Reader (replicate 12 7) EOF) [] = Ok ct
          \<and> Decrypt (Base64Cipher DefaultCipher (GCMCipher DefaultCipher (Block (aes_encrypt (replicate 32 0))))) ct
             = Ok [])"
proof -
  let ?c = "Base64Cipher DefaultCipher (GCMCipher DefaultCipher (Block (aes_encrypt (replicate 32 0))))"
  let ?r = "Reader (replicate 12 7) EOF"
  have e: "entropy ?c \<le> length (pending ?r)" by simp
  have s: "sealable ?c []" by simp
  from e s Decrypt_Encrypt [OF e s] show ?thesis by (intro conjI)
qed

text \<open>
  On a plaintext of \<open>2^36 - 31\<close> bytes, one more than \<^verbatim>\<open>Seal\<close> accepts, \<^verbatim>\<open>Encrypt\<close> of the
  GCM variant panics: there is no ciphertext to decrypt.
\<close>

theorem Encrypt_GCM_too_large_panics:
  "Encrypt (GCMCipher DefaultCipher (Block (aes_encrypt (replicate 16 0))))
     (Reader (replicate 12 0) EOF) (replicate (2 ^ 36 - 31) 0)
   = Panic (PanicString ''crypto/cipher: message too large for GCM'')"
proof -
  have "12 \<le> length (pending (Reader (replicate 12 (0 :: byte)) EOF))"
    by (simp only: Reader.sel length_replicate order_refl)
  moreover have "(2 ^ 32 - 2) * 16 < length (replicate (2 ^ 36 - 31) (0 :: byte))"
    unfolding length_replicate by simp
  ultimately show ?thesis
    unfolding Encrypt.simps by (rule GCMCipher_Encrypt_too_large)
qed

section \<open>Buffers\<close>

subsection \<open>Arrays that a call leaves as they were\<close>

lemma preserved_refl: "preserved h h"
  by (simp add: preserved_def)

lemma preserved_length: "preserved h h' \<Longrightarrow> length h \<le> length h'"
proof -
  assume "preserved h h'"
  then have "length (take (length h) h') = length h"
    by (simp only: preserved_def)
  then show ?thesis by simp
qed

lemma preserved_trans: "preserved h h1 \<Longrightarrow> preserved h1 h2 \<Longrightarrow> preserved h h2"
proof -
  assume a: "preserved h h1" and b: "preserved h1 h2"
  have "take (length h) (take (length h1) h2) = take (length h) h2"
    using preserved_length [OF a] by (simp add: min_def)
  moreover have "take (length h) (take (length h1) h2) = h"
    using a b by (simp only: preserved_def)
  ultimately show ?thesis by (simp only: preserved_def)
qed

lemma take_copy: "n \<le> array dst \<Longrightarrow> take n (copy h dst src) = take n h"
  by (simp add: copy_def Let_def)

lemma length_copy: "length (copy h dst src) = length h"
  by (simp add: copy_def Let_def)

lemma preserved_make: "preserved h (fst (make h n))" "array (snd (make h n)) = length h"
  by (simp_all add: make_def preserved_def)

lemma copy_len0: "len dst = 0 \<Longrightarrow> copy h dst src = h"
  by (simp add: copy_def)

lemma preserved_copy:
  "preserved h0 h \<Longrightarrow> length h0 \<le> array dst \<Longrightarrow> preserved h0 (copy h dst src)"
  by (simp add: preserved_def take_copy)

lemma preserved_sliceForAppend_fresh:
  assumes "preserved h0 h" "length h0 \<le> array dst"
  shows "preserved h0 (fst (sliceForAppend h dst n))"
    "length h0 \<le> array (snd (snd (sliceForAppend h dst n)))"
proof -
  have l: "length h0 \<le> length h" using assms(1) by (rule preserved_length)
  have m: "preserved h0 (h @ [replicate k 0])" for k
    using assms(1) l by (simp add: preserved_def)
  show "preserved h0 (fst (sliceForAppend h dst n))"
    using assms m l by (simp add: sliceForAppend_def Let_def make_def preserved_copy)
  show "length h0 \<le> array (snd (snd (sliceForAppend h dst n)))"
    using assms l by (simp add: sliceForAppend_def Let_def make_def)
qed

lemma preserved_sliceForAppend_nil:
  assumes "preserved h0 h"
  shows "preserved h0 (fst (sliceForAppend h nil n))"
    "length h0 \<le> array (snd (snd (sliceForAppend h nil n))) \<or> len (snd (snd (sliceForAppend h nil n))) = 0"
proof -
  have l: "length h0 \<le> length h" using assms(1) by (rule preserved_length)
  have m: "preserved h0 (h @ [replicate k 0])" for k
    using assms(1) l by (simp add: preserved_def)
  show "preserved h0 (fst (sliceForAppend h nil n))"
    using assms m l by (simp add: sliceForAppend_def Let_def make_def preserved_copy nil_def)
  show "length h0 \<le> array (snd (snd (sliceForAppend h nil n))) \<or> len (snd (snd (sliceForAppend h nil n))) = 0"
    using assms l by (simp add: sliceForAppend_def Let_def make_def nil_def)
qed

lemma preserved_Seal_heap:
  assumes "preserved h0 h" "length h0 \<le> array dst"
  shows "preserved h0 (fst (Seal_heap g h dst nonce plaintext data))"
proof (cases "Seal g [] (load h nonce) (load h plaintext) (load h data)")
  case (Ok bs)
  obtain h' ret out where s: "sliceForAppend h dst (length bs) = (h', ret, out)"
    by (cases "sliceForAppend h dst (length bs)") auto
  with preserved_sliceForAppend_fresh [OF assms, of "length bs"]
  have "preserved h0 h'" "length h0 \<le> array out" by simp_all
  then show ?thesis using Ok s by (simp add: Seal_heap_def preserved_copy)
next
  case (Err e)
  then show ?thesis using assms by (simp add: Seal_heap_def)
next
  case (Panic p)
  then show ?thesis using assms by (simp add: Seal_heap_def)
qed

lemma preserved_Open_heap_nil:
  assumes "preserved h0 h"
  shows "preserved h0 (fst (Open_heap g h nil nonce ciphertext data))"
proof (cases "Open g [] (load h nonce) (load h ciphertext) (load h data)")
  case (Ok bs)
  obtain h' ret out where s: "sliceForAppend h nil (length bs) = (h', ret, out)"
    by (cases "sliceForAppend h nil (length bs)") auto
  with preserved_sliceForAppend_nil [OF assms, of "length bs"]
  have "preserved h0 h'" "length h0 \<le> array out \<or> len out = 0" by simp_all
  then have "preserved h0 (copy h' out bs)"
    using preserved_copy [of h0 h' out bs] copy_len0 [of out h' bs] by auto
  then show ?thesis using Ok s by (simp add: Open_heap_def)
next
  case (Err e)
  then show ?thesis using assms by (simp add: Open_heap_def)
next
  case (Panic p)
  then show ?thesis using assms by (simp add: Open_heap_def)
qed

lemma preserved_CFBCipher_Encrypt_heap:
  assumes "preserved h0 h"
  shows "preserved h0 (fst (CFBCipher_Encrypt_heap c rand h v))"
proof -
  define h1 where "h1 = h @ [replicate (16 + len v) 0]"
  define ct where "ct = slice (length h) 0 (16 + len v) (16 + len v)"
  have mk: "make h (16 + len v) = (h1, ct)"
    by (simp add: make_def h1_def ct_def)
  have l: "length h0 \<le> length h" using assms by (rule preserved_length)
  have p1: "preserved h0 h1"
    using assms l by (simp add: preserved_def h1_def)
  have iv: "slice_to ct 16 = Ok (slice (length h) 0 16 (16 + len v))"
    by (simp add: slice_to_def ct_def)
  have body: "slice_from ct 16 = Ok (slice (length h) 16 (len v) (len v))"
    by (simp add: slice_from_def ct_def)
  have c1: "preserved h0 (copy h1 (slice (length h) x y z) bs)" for x y z bs
    using p1 l by (simp add: preserved_copy)
  have c2: "preserved h0 (copy (copy h1 (slice (length h) x y z) bs) (slice (length h) x' y' z') bs')"
    for x y z bs x' y' z' bs'
    using c1 l by (simp add: preserved_copy)
  show ?thesis
    unfolding CFBCipher_Encrypt_heap_def mk prod.case iv body result.case
    by (simp add: p1 c1 c2 XORKeyStream_heap_def Let_def split: result.splits)
qed

lemma preserved_GCMCipher_Encrypt_heap:
  assumes "preserved h0 h"
  shows "preserved h0 (fst (GCMCipher_Encrypt_heap c rand h v))"
proof -
  define h1 where "h1 = h @ [replicate 12 0]"
  define nonce where "nonce = slice (length h) 0 12 12"
  have mk: "make h 12 = (h1, nonce)"
    by (simp add: make_def h1_def nonce_def)
  have l: "length h0 \<le> length h" using assms by (rule preserved_length)
  have p1: "preserved h0 h1"
    using assms l by (simp add: preserved_def h1_def)
  have a: "length h0 \<le> array nonce" using l by (simp add: nonce_def)
  have c1: "preserved h0 (copy h1 nonce bs)" for bs
    using p1 a by (rule preserved_copy)
  show ?thesis
    unfolding GCMCipher_Encrypt_heap_def NewGCM_def BlockSize_def NonceSize_def
    by (simp add: mk p1 c1 preserved_Seal_heap [OF c1 a] split: result.splits)
qed

lemma preserved_GCMCipher_Decrypt_heap:
  "preserved h0 h \<Longrightarrow> preserved h0 (fst (GCMCipher_Decrypt_heap c h ct))"
  unfolding GCMCipher_Decrypt_heap_def NewGCM_def BlockSize_def NonceSize_def
  by (simp add: preserved_Open_heap_nil split: result.splits)

lemma preserved_Encrypt_heap:
  "preserved h0 h \<Longrightarrow> preserved h0 (fst (Encrypt_heap c rand h v))"
proof (induction c arbitrary: h v)
  case (Default d)
  then show ?case by simp
next
  case (Base64Cipher d c)
  show ?case
  proof (cases "Encrypt_heap c rand h v")
    case (Pair h1 r)
    then have p1: "preserved h0 h1"
      using Base64Cipher.IH [OF Base64Cipher.prems, of v] by simp
    then have l: "length h0 \<le> length h1" by (rule preserved_length)
    have "preserved h0 (h1 @ [replicate k 0])" for k
      using p1 l by (simp add: preserved_def)
    then have "preserved h0 (copy (h1 @ [replicate k 0]) (slice (length h1) x y z) bs)" for k x y z bs
      using l by (simp add: preserved_copy)
    then show ?thesis
      using Pair p1 by (simp add: make_def Let_def split: result.splits)
  qed
next
  case (CFBCipher d c)
  then show ?case by (simp add: preserved_CFBCipher_Encrypt_heap)
next
  case (GCMCipher d c)
  then show ?case by (simp add: preserved_GCMCipher_Encrypt_heap)
qed

lemma preserved_imp_but: "preserved h h' \<Longrightarrow> preserved_but a h h'"
  using preserved_length [of h h'] by (simp add: preserved_def preserved_but_def)

lemma preserved_then_but:
  assumes "preserved h0 h" "preserved_but a h h'" "length h0 \<le> a"
  shows "preserved h0 h'"
proof -
  have l: "length h0 \<le> length h" using assms(1) by (rule preserved_length)
  have "take (length h0) h' = take (length h0) (take (length h) h')"
    using l by (simp add: min_def)
  also have "\<dots> = take (length h0) ((take (length h) h')[a := h ! a])"
    using assms(3) by simp
  also have "\<dots> = take (length h0) h"
    using assms(2) by (simp add: preserved_but_def)
  also have "\<dots> = h0"
    using assms(1) by (simp add: preserved_def)
  finally show ?thesis by (simp add: preserved_def)
qed

lemma preserved_but_copy: "preserved_but (array dst) h (copy h dst src)"
  by (simp add: preserved_but_def copy_def Let_def)

lemma preserved_but_CFBCipher_Decrypt_heap:
  "preserved_but (array ct) h (fst (CFBCipher_Decrypt_heap c h ct))"
proof (cases "len ct < 16")
  case True
  then show ?thesis
    by (simp add: CFBCipher_Decrypt_heap_def preserved_imp_but preserved_refl)
next
  case False
  then have "16 \<le> cap ct \<or> slice_to ct 16 = Panic SliceBoundsOutOfRange"
    by (simp add: slice_to_def)
  moreover have "preserved_but (array ct) h (copy h (slice (array ct) x y z) bs)" for x y z bs
    using preserved_but_copy [of "slice (array ct) x y z" h bs] by simp
  ultimately show ?thesis
    using False
    by (auto simp add: CFBCipher_Decrypt_heap_def slice_to_def slice_from_def
        XORKeyStream_heap_def NewCFBDecrypter_def newCFB_def BlockSize_def
        preserved_imp_but preserved_refl)
qed

lemma preserved_but_Decrypt_heap:
  "preserved_but (array ct) h (fst (Decrypt_heap c h ct))"
proof (induction c arbitrary: h ct)
  case (Default d)
  then show ?case by (simp add: preserved_imp_but preserved_refl)
next
  case (Base64Cipher d c)
  define h1 where "h1 = h @ [replicate (len ct div 4 * 3) 0]"
  define dbuf where "dbuf = slice (length h) 0 (len ct div 4 * 3) (len ct div 4 * 3)"
  have mk: "make h (len ct div 4 * 3) = (h1, dbuf)"
    by (simp add: make_def h1_def dbuf_def)
  have p1: "preserved h h1" by (simp add: preserved_def h1_def)
  have c: "preserved h (copy h1 dbuf bs)" for bs
    using p1 by (simp add: preserved_copy dbuf_def)
  have "preserved h (fst (Decrypt_heap (Base64Cipher d c) h ct))"
  proof (cases "DecodeString (load h ct)")
    case p: (Pair decoded e)
    show ?thesis
    proof (cases e)
      case (Some err)
      then show ?thesis using mk p c by simp
    next
      case None
      show ?thesis
      proof (cases "slice_to dbuf (length decoded)")
        case (Ok encrypted)
        then have "array encrypted = length h"
          by (auto simp: slice_to_def dbuf_def split: if_splits)
        then have "preserved h (fst (Decrypt_heap c (copy h1 dbuf decoded) encrypted))"
          using preserved_then_but [OF c Base64Cipher.IH [of encrypted "copy h1 dbuf decoded"]]
          by simp
        then show ?thesis using mk p None Ok by simp
      next
        case (Err x)
        then show ?thesis using mk p None p1 by simp
      next
        case (Panic x)
        then show ?thesis using mk p None p1 by simp
      qed
    qed
  qed
  then show ?case by (rule preserved_imp_but)
next
  case (CFBCipher d c)
  then show ?case by (simp add: preserved_but_CFBCipher_Decrypt_heap)
next
  case (GCMCipher d c)
  then show ?case
    by (simp add: preserved_imp_but preserved_GCMCipher_Decrypt_heap preserved_refl)
qed

subsection \<open>Slices that a call returns\<close>

lemma fresh_simps [simp]:
  "fresh h (Ok s) = (length h \<le> array s \<or> s = nil)" "fresh h (Err e)" "fresh h (Panic p)"
  by (simp_all add: fresh_def)

lemma fresh_or_within_simps [simp]:
  "fresh_or_within a h (Ok s) = (length h \<le> array s \<or> s = nil \<or> array s = array a)"
  "fresh_or_within a h (Err e)" "fresh_or_within a h (Panic p)"
  by (simp_all add: fresh_or_within_def)

lemma fresh_mono: "length h0 \<le> length h \<Longrightarrow> fresh h r \<Longrightarrow> fresh h0 r"
  by (cases r) auto

lemma fresh_CFBCipher_Encrypt_heap: "fresh h (snd (CFBCipher_Encrypt_heap c rand h v))"
  by (simp add: CFBCipher_Encrypt_heap_def make_def slice_to_def slice_from_def
      XORKeyStream_heap_def Let_def split: result.splits)

lemma fresh_Seal_heap:
  assumes "length h0 \<le> array dst" "length h0 \<le> length h"
  shows "fresh h0 (snd (Seal_heap g h dst nonce plaintext data))"
proof (cases "Seal g [] (load h nonce) (load h plaintext) (load h data)")
  case (Ok bs)
  then show ?thesis
    using assms
    by (simp add: Seal_heap_def sliceForAppend_def Let_def make_def split: prod.splits)
next
  case (Err e)
  then show ?thesis by (simp add: Seal_heap_def)
next
  case (Panic p)
  then show ?thesis by (simp add: Seal_heap_def)
qed

lemma fresh_GCMCipher_Encrypt_heap: "fresh h (snd (GCMCipher_Encrypt_heap c rand h v))"
proof -
  have "fresh h (snd (Seal_heap g (copy (h @ [replicate 12 0]) (slice (length h) 0 12 12) r)
      (slice (length h) 0 12 12) n v d))" for g r n d
    by (rule fresh_Seal_heap) (simp_all add: length_copy)
  then show ?thesis
    by (simp add: GCMCipher_Encrypt_heap_def NewGCM_def BlockSize_def NonceSize_def make_def
        split: result.splits)
qed

lemma fresh_Open_heap_nil: "fresh h (snd (Open_heap g h nil nonce ciphertext data))"
proof (cases "Open g [] (load h nonce) (load h ciphertext) (load h data)")
  case (Ok bs)
  then show ?thesis
    by (simp add: Open_heap_def sliceForAppend_def Let_def make_def nil_def split: prod.splits)
next
  case (Err e)
  then show ?thesis by (simp add: Open_heap_def)
next
  case (Panic p)
  then show ?thesis by (simp add: Open_heap_def)
qed

lemma fresh_GCMCipher_Decrypt_heap: "fresh h (snd (GCMCipher_Decrypt_heap c h ct))"
  by (simp add: GCMCipher_Decrypt_heap_def NewGCM_def BlockSize_def NonceSize_def
      fresh_Open_heap_nil split: result.splits)

lemma preserved_fst_Encrypt_heap: "preserved h (fst (Encrypt_heap c rand h v))"
  by (rule preserved_Encrypt_heap [OF preserved_refl])

lemma fresh_Encrypt_heap_Base64: "fresh h (snd (Encrypt_heap (Base64Cipher d c) rand h v))"
proof (cases "Encrypt_heap c rand h v")
  case (Pair h1 r)
  have "length h \<le> length h1"
    using preserved_length [OF preserved_fst_Encrypt_heap [of h c rand v]] Pair by simp
  then show ?thesis
    using Pair by (simp add: make_def Let_def split: result.splits)
qed

lemma fresh_or_within_Decrypt_heap: "fresh_or_within ct h (snd (Decrypt_heap c h ct))"
proof (induction c arbitrary: h ct)
  case (Default d)
  then show ?case by simp
next
  case (Base64Cipher d c)
  define h1 where "h1 = h @ [replicate (len ct div 4 * 3) 0]"
  define dbuf where "dbuf = slice (length h) 0 (len ct div 4 * 3) (len ct div 4 * 3)"
  have mk: "make h (len ct div 4 * 3) = (h1, dbuf)"
    by (simp add: make_def h1_def dbuf_def)
  have "fresh h (snd (Decrypt_heap (Base64Cipher d c) h ct))"
  proof (cases "DecodeString (load h ct)")
    case p: (Pair decoded e)
    show ?thesis
    proof (cases e)
      case (Some err)
      then show ?thesis using mk p by simp
    next
      case None
      show ?thesis
      proof (cases "slice_to dbuf (length decoded)")
        case (Ok encrypted)
        then have a: "array encrypted = length h"
          by (auto simp: slice_to_def dbuf_def split: if_splits)
        have l: "length (copy h1 dbuf decoded) = Suc (length h)"
          by (simp add: length_copy h1_def)
        have "fresh_or_within encrypted (copy h1 dbuf decoded)
            (snd (Decrypt_heap c (copy h1 dbuf decoded) encrypted))"
          by (rule Base64Cipher.IH)
        then have "fresh h (snd (Decrypt_heap c (copy h1 dbuf decoded) encrypted))"
          using a l by (cases "snd (Decrypt_heap c (copy h1 dbuf decoded) encrypted)") auto
        then show ?thesis using mk p None Ok by simp
      next
        case (Err x)
        then show ?thesis using mk p None by simp
      next
        case (Panic x)
        then show ?thesis using mk p None by simp
      qed
    qed
  qed
  then show ?case
    by (cases "snd (Decrypt_heap (Base64Cipher d c) h ct)") auto
next
  case (CFBCipher d c)
  then show ?case
    by (simp add: CFBCipher_Decrypt_heap_def slice_to_def slice_from_def XORKeyStream_heap_def
        NewCFBDecrypter_def newCFB_def BlockSize_def split: result.splits)
next
  case (GCMCipher d c)
  have "fresh h (snd (GCMCipher_Decrypt_heap c h ct))"
    by (rule fresh_GCMCipher_Decrypt_heap)
  then show ?case
    by (cases "snd (GCMCipher_Decrypt_heap c h ct)") auto
qed

lemma fresh_Decrypt_heap_Base64: "fresh h (snd (Decrypt_heap (Base64Cipher d c) h ct))"
proof -
  define h1 where "h1 = h @ [replicate (len ct div 4 * 3) 0]"
  define dbuf where "dbuf = slice (length h) 0 (len ct div 4 * 3) (len ct div 4 * 3)"
  have mk: "make h (len ct div 4 * 3) = (h1, dbuf)"
    by (simp add: make_def h1_def dbuf_def)
  show ?thesis
  proof (cases "DecodeString (load h ct)")
    case p: (Pair decoded e)
    show ?thesis
    proof (cases e)
      case (Some err)
      then show ?thesis using mk p by simp
    next
      case None
      show ?thesis
      proof (cases "slice_to dbuf (length decoded)")
        case (Ok encrypted)
        then have a: "array encrypted = length h"
          by (auto simp: slice_to_def dbuf_def split: if_splits)
        have l: "length (copy h1 dbuf decoded) = Suc (length h)"
          by (simp add: length_copy h1_def)
        have "fresh_or_within encrypted (copy h1 dbuf decoded)
            (snd (Decrypt_heap c (copy h1 dbuf decoded) encrypted))"
          by (rule fresh_or_within_Decrypt_heap)
        then have "fresh h (snd (Decrypt_heap c (copy h1 dbuf decoded) encrypted))"
          using a l by (cases "snd (Decrypt_heap c (copy h1 dbuf decoded) encrypted)") auto
        then show ?thesis using mk p None Ok by simp
      next
        case (Err x)
        then show ?thesis using mk p None by simp
      next
        case (Panic x)
        then show ?thesis using mk p None by simp
      qed
    qed
  qed
qed

lemma preserved_Decrypt_heap_Base64: "preserved h (fst (Decrypt_heap (Base64Cipher d c) h ct))"
proof -
  define h1 where "h1 = h @ [replicate (len ct div 4 * 3) 0]"
  define dbuf where "dbuf = slice (length h) 0 (len ct div 4 * 3) (len ct div 4 * 3)"
  have mk: "make h (len ct div 4 * 3) = (h1, dbuf)"
    by (simp add: make_def h1_def dbuf_def)
  have p1: "preserved h h1" by (simp add: preserved_def h1_def)
  have c: "preserved h (copy h1 dbuf bs)" for bs
    using p1 by (simp add: preserved_copy dbuf_def)
  show ?thesis
  proof (cases "DecodeString (load h ct)")
    case p: (Pair decoded e)
    show ?thesis
    proof (cases e)
      case (Some err)
      then show ?thesis using mk p c by simp
    next
      case None
      show ?thesis
      proof (cases "slice_to dbuf (length decoded)")
        case (Ok encrypted)
        then have "array encrypted = length h"
          by (auto simp: slice_to_def dbuf_def split: if_splits)
        then have "preserved h (fst (Decrypt_heap c (copy h1 dbuf decoded) encrypted))"
          using preserved_then_but
            [OF c preserved_but_Decrypt_heap [of encrypted "copy h1 dbuf decoded" c]]
          by simp
        then show ?thesis using mk p None Ok by simp
      next
        case (Err x)
        then show ?thesis using mk p None p1 by simp
      next
        case (Panic x)
        then show ?thesis using mk p None p1 by simp
      qed
    qed
  qed
qed

subsection \<open>Decryption in place\<close>

lemma length_load: "valid h s \<Longrightarrow> length (load h s) = len s"
  unfolding load_def valid_def by auto

lemma load_take: "valid h s \<Longrightarrow> n \<le> len s \<Longrightarrow>
  load h (slice (array s) (off s) n k) = take n (load h s)"
  by (simp add: load_def valid_def min_def)

lemma load_drop: "valid h s \<Longrightarrow> n \<le> len s \<Longrightarrow>
  load h (slice (array s) (off s + n) (len s - n) k) = drop n (load h s)"
  by (simp add: load_def valid_def drop_take add.commute)

lemma load_copy_tail:
  assumes "valid h s" "n \<le> len s" "length p = len s - n"
  shows "load (copy h (slice (array s) (off s + n) (len s - n) k) p) s = take n (load h s) @ p"
proof -
  let ?a = "h ! array s"
  have la: "off s + len s \<le> length ?a" and ih: "array s < length h"
    using assms(1) by (auto simp: valid_def)
  have "load (copy h (slice (array s) (off s + n) (len s - n) k) p) s
      = take (len s) (drop (off s) (take (off s + n) ?a @ p @ drop (off s + n + (len s - n)) ?a))"
    using ih assms(3) by (simp add: load_def copy_def Let_def)
  also have "\<dots> = take (len s) (take n (drop (off s) ?a) @ p @ drop (off s + len s) ?a)"
    using la assms(2) by (simp add: drop_take)
  also have "\<dots> = take n (drop (off s) ?a) @ p"
    using la assms(2,3) by simp
  also have "\<dots> = take n (load h s) @ p"
    using assms(2) by (simp add: load_def min_def)
  finally show ?thesis .
qed

lemma CFBCipher_Decrypt_heap_effect:
  assumes "valid h ct" "16 \<le> len ct"
  shows "CFBCipher_Decrypt_heap c h ct
    = (copy h (slice (array ct) (off ct + 16) (len ct - 16) (cap ct - 16))
         (XORKeyStream (cfb c (take 16 (load h ct)) True) (drop 16 (load h ct))),
       Ok (slice (array ct) (off ct + 16) (len ct - 16) (cap ct - 16)))"
proof -
  have cap: "16 \<le> cap ct" using assms by (simp add: valid_def)
  have iv: "load h (slice (array ct) (off ct) 16 (cap ct)) = take 16 (load h ct)"
    using load_take [OF assms] .
  have body: "load h (slice (array ct) (off ct + 16) (len ct - 16) (cap ct - 16))
      = drop 16 (load h ct)"
    using load_drop [OF assms] .
  have l: "length (take 16 (load h ct)) = 16"
    using assms by (simp add: length_load)
  show ?thesis
    using assms(2) cap l
    by (simp add: CFBCipher_Decrypt_heap_def slice_to_def slice_from_def iv body
        NewCFBDecrypter_def newCFB_def BlockSize_def XORKeyStream_heap_def)
qed

subsection \<open>The methods on buffers and on byte sequences agree\<close>

text \<open>
  On a valid argument every method on buffers returns what the method on byte sequences
  returns for the argument's bytes: the same error or panic, or a slice holding the same
  bytes (\<open>Encrypt_heap_agrees\<close> and \<open>Decrypt_heap_agrees\<close> below).
\<close>

lemma agrees_simps [simp]:
  "agrees (h', Ok s) r = (r = Ok (load h' s))"
  "agrees (h', Err e) r = (r = Err e)"
  "agrees (h', Panic p) r = (r = Panic p)"
  by (simp_all add: agrees_def)

lemma load_new:
  "load (copy (h @ [a]) (slice (length h) x n k) bs) (slice (length h) x n k')
     = take n (drop x (take x a @ take (min n (length bs)) bs @ drop (x + min n (length bs)) a))"
  by (simp add: load_def copy_def Let_def)

lemma load_old_append: "array s < length h \<Longrightarrow> load (h @ hs) s = load h s"
  by (simp add: load_def nth_append)

lemma load_old_copy: "array s \<noteq> array dst \<Longrightarrow> load (copy h dst bs) s = load h s"
  by (simp add: load_def copy_def Let_def)

lemma CFBCipher_Encrypt_heap_agrees:
  assumes "valid h v"
  shows "agrees (CFBCipher_Encrypt_heap c rand h v) (CFBCipher_Encrypt c rand (load h v))"
proof (cases "ReadFull rand 16")
  case (Ok r)
  then have lr: "length r = 16"
    by (auto simp: ReadFull_def split: if_splits)
  have av: "array v < length h" using assms by (simp add: valid_def)
  let ?h1 = "h @ [replicate (16 + len v) 0]"
  let ?iv = "slice (length h) 0 16 (16 + len v)"
  let ?body = "slice (length h) 16 (len v) (len v)"
  let ?ct = "slice (length h) 0 (16 + len v) (16 + len v)"
  let ?h2 = "copy ?h1 ?iv r"
  let ?out = "XORKeyStream (cfb c r False) (load h v)"
  have iv: "load ?h2 ?iv = r"
    using lr by (simp add: load_new)
  have v2: "load ?h2 v = load h v"
    using av by (simp add: load_old_copy load_old_append)
  have lo: "length ?out = len v"
    using assms by (simp add: length_XORKeyStream length_load)
  have fin: "load (copy ?h2 ?body ?out) ?ct = r @ ?out"
    using lr lo by (simp add: load_def copy_def Let_def)
  show ?thesis
    using Ok lr iv v2 fin
    by (simp add: CFBCipher_Encrypt_heap_def CFBCipher_Encrypt_def make_def slice_to_def
        slice_from_def NewCFBEncrypter_def newCFB_def BlockSize_def XORKeyStream_heap_def Let_def)
next
  case (Err e)
  then show ?thesis
    by (simp add: CFBCipher_Encrypt_heap_def CFBCipher_Encrypt_def make_def slice_to_def)
next
  case (Panic p)
  then show ?thesis
    by (simp add: CFBCipher_Encrypt_heap_def CFBCipher_Encrypt_def make_def slice_to_def)
qed

lemma CFBCipher_Decrypt_heap_agrees:
  assumes "valid h ct"
  shows "agrees (CFBCipher_Decrypt_heap c h ct) (CFBCipher_Decrypt c (load h ct))"
proof (cases "len ct < 16")
  case True
  then show ?thesis
    using assms by (simp add: CFBCipher_Decrypt_heap_def CFBCipher_Decrypt_def length_load)
next
  case False
  then have l: "16 \<le> len ct" by simp
  let ?p = "XORKeyStream (cfb c (take 16 (load h ct)) True) (drop 16 (load h ct))"
  let ?body = "slice (array ct) (off ct + 16) (len ct - 16) (cap ct - 16)"
  have lp: "length ?p = len ct - 16"
    using assms by (simp add: length_XORKeyStream length_load)
  have "load (copy h ?body ?p) ct = take 16 (load h ct) @ ?p"
    by (rule load_copy_tail [OF assms l lp])
  then have "drop 16 (load (copy h ?body ?p) ct) = ?p"
    using assms l by (simp add: length_load)
  moreover have "valid (copy h ?body ?p) ct"
    using assms l lp by (auto simp: valid_def copy_def Let_def)
  ultimately have "load (copy h ?body ?p) ?body = ?p"
    using load_drop [of "copy h ?body ?p" ct 16 "cap ct - 16"] l by simp
  then show ?thesis
    using assms l CFBCipher_Decrypt_heap_effect [OF assms l, of c]
    by (simp add: CFBCipher_Decrypt_def NewCFBDecrypter_def newCFB_def BlockSize_def length_load)
qed

lemma Seal_dst:
  "Seal g dst nonce plaintext data =
     (case Seal g [] nonce plaintext data of
        Ok bs \<Rightarrow> Ok (dst @ bs) | Err err \<Rightarrow> Err err | Panic p \<Rightarrow> Panic p)"
  by (simp add: Seal_def Let_def)

lemma GCMCipher_Encrypt_heap_agrees:
  assumes "valid h v"
  shows "agrees (GCMCipher_Encrypt_heap c rand h v) (GCMCipher_Encrypt c rand (load h v))"
proof (cases "ReadFull rand 12")
  case (Ok r)
  then have lr: "length r = 12"
    by (auto simp: ReadFull_def split: if_splits)
  have av: "array v < length h" using assms by (simp add: valid_def)
  let ?g = "gcm c 12 16"
  let ?h1 = "h @ [replicate 12 0]"
  let ?nonce = "slice (length h) 0 12 12"
  let ?h2 = "copy ?h1 ?nonce r"
  have h2: "?h2 = h @ [r]"
    using lr by (simp add: copy_def)
  have n2: "load ?h2 ?nonce = r"
    using lr by (simp add: load_new)
  have v2: "load ?h2 v = load h v"
    using av by (simp add: load_old_copy load_old_append)
  have nil2: "load ?h2 nil = []"
    by (simp add: load_def nil_def)
  show ?thesis
  proof (cases "Seal ?g [] r (load h v) []")
    case s: (Ok bs)
    then have "16 \<le> length bs"
      by (auto simp: Seal_def Let_def length_auth split: if_splits)
    then have "bs \<noteq> []" by auto
    then have sfa: "sliceForAppend ?h2 ?nonce (length bs)
        = (copy (?h2 @ [replicate (12 + length bs) 0])
             (slice (Suc (length h)) 0 (12 + length bs) (12 + length bs)) r,
           slice (Suc (length h)) 0 (12 + length bs) (12 + length bs),
           slice (Suc (length h)) 12 (length bs) (length bs))"
      using n2 by (simp add: sliceForAppend_def make_def length_copy Let_def)
    have "load (copy (copy (h @ [r] @ [replicate (12 + length bs) 0])
             (slice (Suc (length h)) 0 (12 + length bs) (12 + length bs)) r)
             (slice (Suc (length h)) 12 (length bs) (length bs)) bs)
           (slice (Suc (length h)) 0 (12 + length bs) (12 + length bs)) = r @ bs"
      using lr by (simp add: load_def copy_def Let_def nth_append)
    then show ?thesis
      using Ok s sfa n2 v2 nil2 h2
      by (simp add: GCMCipher_Encrypt_heap_def GCMCipher_Encrypt_def NewGCM_def BlockSize_def
          NonceSize_def make_def Seal_heap_def Seal_dst [of ?g r])
  next
    case s: (Err e)
    then show ?thesis
      using Ok n2 v2 nil2
      by (simp add: GCMCipher_Encrypt_heap_def GCMCipher_Encrypt_def NewGCM_def BlockSize_def
          NonceSize_def make_def Seal_heap_def Seal_dst [of ?g r])
  next
    case s: (Panic p)
    then show ?thesis
      using Ok n2 v2 nil2
      by (simp add: GCMCipher_Encrypt_heap_def GCMCipher_Encrypt_def NewGCM_def BlockSize_def
          NonceSize_def make_def Seal_heap_def Seal_dst [of ?g r])
  qed
next
  case (Err e)
  then show ?thesis
    by (simp add: GCMCipher_Encrypt_heap_def GCMCipher_Encrypt_def NewGCM_def BlockSize_def
        NonceSize_def make_def)
next
  case (Panic p)
  then show ?thesis
    by (simp add: GCMCipher_Encrypt_heap_def GCMCipher_Encrypt_def NewGCM_def BlockSize_def
        NonceSize_def make_def)
qed

lemma GCMCipher_Decrypt_heap_agrees:
  assumes "valid h ct"
  shows "agrees (GCMCipher_Decrypt_heap c h ct) (GCMCipher_Decrypt c (load h ct))"
proof (cases "len ct < 12")
  case True
  then show ?thesis
    using assms
    by (simp add: GCMCipher_Decrypt_heap_def GCMCipher_Decrypt_def NewGCM_def BlockSize_def
        NonceSize_def slice_to_def slice_from_def length_load)
next
  case False
  then have l: "12 \<le> len ct" by simp
  then have cap: "12 \<le> cap ct" using assms by (simp add: valid_def)
  let ?g = "gcm c 12 16"
  have n: "load h (slice (array ct) (off ct) 12 (cap ct)) = take 12 (load h ct)"
    using load_take [OF assms l] .
  have bdy: "load h (slice (array ct) (off ct + 12) (len ct - 12) (cap ct - 12))
      = drop 12 (load h ct)"
    using load_drop [OF assms l] .
  have nil: "load h nil = []" by (simp add: load_def nil_def)
  have app: "load (copy (fst (sliceForAppend h nil m)) (snd (snd (sliceForAppend h nil m))) bs)
      (fst (snd (sliceForAppend h nil m))) = bs" if "length bs = m" for m bs
    using that by (auto simp add: sliceForAppend_def nil_def make_def load_def copy_def Let_def)
  show ?thesis
  proof (cases "Open ?g [] (take 12 (load h ct)) (drop 12 (load h ct)) []")
    case (Ok bs)
    obtain h' ret out where s: "sliceForAppend h nil (length bs) = (h', ret, out)"
      by (cases "sliceForAppend h nil (length bs)") auto
    have "load (copy h' out bs) ret = bs"
      using app [of bs "length bs"] s by simp
    then show ?thesis
      using Ok s l cap n bdy nil assms
      by (simp add: GCMCipher_Decrypt_heap_def GCMCipher_Decrypt_def NewGCM_def BlockSize_def
          NonceSize_def slice_to_def slice_from_def length_load Open_heap_def)
  next
    case (Err e)
    then show ?thesis
      using l cap n bdy nil assms
      by (simp add: GCMCipher_Decrypt_heap_def GCMCipher_Decrypt_def NewGCM_def BlockSize_def
          NonceSize_def slice_to_def slice_from_def length_load Open_heap_def)
  next
    case (Panic p)
    then show ?thesis
      using l cap n bdy nil assms
      by (simp add: GCMCipher_Decrypt_heap_def GCMCipher_Decrypt_def NewGCM_def BlockSize_def
          NonceSize_def slice_to_def slice_from_def length_load Open_heap_def)
  qed
qed

lemma length_quantum_bytes: "length (quantum_bytes dbuf) = min (length dbuf - 1) 3"
  by (simp add: quantum_bytes_def Let_def)

lemma skip_newlines_length: "skip_newlines cs si = (r, si') \<Longrightarrow> length r \<le> length cs"
  using fst_skip_newlines [of cs si] length_dropWhile_le [of is_newline cs] by simp

lemma decode_length:
  "length dbuf \<le> 3 \<Longrightarrow> snd (decode n dbuf si s) = None \<Longrightarrow>
   length (fst (decode n dbuf si s)) \<le> 3 * ((length dbuf + length s) div 4)"
proof (induction s arbitrary: dbuf si)
  case Nil
  then show ?case by (simp split: if_splits)
next
  case (Cons c cs)
  show ?case
  proof (cases "decodeMap c \<noteq> 0xFF")
    case True
    show ?thesis
    proof (cases "length dbuf = 3")
      case full: True
      obtain rest e where d: "decode n [] (Suc si) cs = (rest, e)"
        by (cases "decode n [] (Suc si) cs") auto
      then have "e = None" using Cons.prems True full by simp
      then have "length rest \<le> 3 * (length cs div 4)"
        using Cons.IH [of "[]" "Suc si"] d by simp
      moreover have "(4 + length cs) div 4 = Suc (length cs div 4)" by simp
      ultimately show ?thesis
        using True full d by (simp add: length_quantum_bytes)
    next
      case False
      then have l: "length (dbuf @ [decodeMap c]) \<le> 3" using Cons.prems by simp
      have "snd (decode n (dbuf @ [decodeMap c]) (Suc si) cs) = None"
        using Cons.prems True False by simp
      from Cons.IH [OF l this] show ?thesis
        using True False by simp
    qed
  next
    case False
    then have na: "decodeMap c = 0xFF" by simp
    show ?thesis
    proof (cases "is_newline c")
      case True
      then have "snd (decode n dbuf (Suc si) cs) = None"
        using Cons.prems na by simp
      from Cons.IH [OF Cons.prems(1) this]
      have "length (fst (decode n dbuf (Suc si) cs)) \<le> 3 * ((length dbuf + length cs) div 4)" .
      also have "\<dots> \<le> 3 * ((length dbuf + length (c # cs)) div 4)"
        by (simp add: div_le_mono)
      finally show ?thesis using True na by simp
    next
      case nl: False
      have p: "c = padChar" "2 \<le> length dbuf"
        using Cons.prems na nl by (auto split: if_splits)
      show ?thesis
      proof (cases "length dbuf = 2")
        case True
        obtain r si' where sk: "skip_newlines cs (Suc si) = (r, si')"
          by (cases "skip_newlines cs (Suc si)") auto
        then have "r \<noteq> []"
          using Cons.prems na nl p True by (auto split: if_splits)
        then have "1 \<le> length cs"
          using skip_newlines_length [OF sk] by (cases r) auto
        then have "1 \<le> (length dbuf + length (c # cs)) div 4"
          using True by simp
        moreover have "length (fst (decode n dbuf si (c # cs))) \<le> 1"
          using na nl p True sk
          by (auto simp: length_quantum_bytes split: list.splits prod.splits if_splits)
        ultimately show ?thesis by linarith
      next
        case False
        then have three: "length dbuf = 3" using p Cons.prems by simp
        then have "1 \<le> (length dbuf + length (c # cs)) div 4" by simp
        moreover have "length (fst (decode n dbuf si (c # cs))) \<le> 2"
          using na nl p three
          by (auto simp: length_quantum_bytes split: list.splits prod.splits if_splits)
        ultimately show ?thesis by linarith
      qed
    qed
  qed
qed

lemma DecodeString_length:
  "DecodeString s = (decoded, None) \<Longrightarrow> length decoded \<le> length s div 4 * 3"
  using decode_length [of "[]" "length s" 0 s] by (simp add: DecodeString_def mult.commute)

lemma Encrypt_heap_agrees:
  "valid h v \<Longrightarrow> agrees (Encrypt_heap c rand h v) (Encrypt c rand (load h v))"
proof (induction c arbitrary: h v)
  case (Default d)
  then show ?case by (simp add: DefaultCipher_Encrypt_def)
next
  case (Base64Cipher d c)
  obtain h1 r where e: "Encrypt_heap c rand h v = (h1, r)"
    by (cases "Encrypt_heap c rand h v") auto
  have ih: "agrees (h1, r) (Encrypt c rand (load h v))"
    using Base64Cipher.IH [OF Base64Cipher.prems] e by simp
  show ?case
  proof (cases r)
    case (Ok encrypted)
    let ?text = "EncodeToString (load h1 encrypted)"
    have "load (copy (h1 @ [replicate (length ?text) 0])
        (slice (length h1) 0 (length ?text) (length ?text)) ?text)
        (slice (length h1) 0 (length ?text) (length ?text)) = ?text"
      by (simp add: load_new)
    then show ?thesis
      using e ih Ok by (simp add: make_def Let_def)
  next
    case (Err x)
    then show ?thesis using e ih by simp
  next
    case (Panic x)
    then show ?thesis using e ih by simp
  qed
next
  case (CFBCipher d c)
  then show ?case by (simp add: CFBCipher_Encrypt_heap_agrees)
next
  case (GCMCipher d c)
  then show ?case by (simp add: GCMCipher_Encrypt_heap_agrees)
qed

lemma Decrypt_heap_agrees:
  "valid h ct \<Longrightarrow> agrees (Decrypt_heap c h ct) (Decrypt c (load h ct))"
proof (induction c arbitrary: h ct)
  case (Default d)
  then show ?case by (simp add: DefaultCipher_Decrypt_def)
next
  case (Base64Cipher d c)
  let ?n = "len ct div 4 * 3"
  let ?h1 = "h @ [replicate ?n 0]"
  let ?dbuf = "slice (length h) 0 ?n ?n"
  have mk: "make h ?n = (?h1, ?dbuf)" by (simp add: make_def)
  obtain decoded e where dec: "DecodeString (load h ct) = (decoded, e)"
    by (cases "DecodeString (load h ct)") auto
  show ?case
  proof (cases e)
    case (Some err)
    then show ?thesis using mk dec by simp
  next
    case None
    then have l: "length decoded \<le> ?n"
      using DecodeString_length [of "load h ct" decoded] dec Base64Cipher.prems
      by (simp add: length_load)
    let ?encrypted = "slice (length h) 0 (length decoded) ?n"
    let ?h2 = "copy ?h1 ?dbuf decoded"
    have st: "slice_to ?dbuf (length decoded) = Ok ?encrypted"
      using l by (simp add: slice_to_def)
    have v2: "valid ?h2 ?encrypted"
      using l by (simp add: valid_def copy_def Let_def min_def)
    have l2: "load ?h2 ?encrypted = decoded"
      using l by (simp add: load_def copy_def Let_def min_def)
    from Base64Cipher.IH [OF v2] show ?thesis
      using mk dec None st l2 by simp
  qed
next
  case (CFBCipher d c)
  then show ?case by (simp add: CFBCipher_Decrypt_heap_agrees)
next
  case (GCMCipher d c)
  then show ?case by (simp add: GCMCipher_Decrypt_heap_agrees)
qed

subsection \<open>What a call does to the buffers\<close>

text \<open>
  C3. The claim fails for \<^verbatim>\<open>Decrypt\<close> of the CFB variant, which decrypts in place, and
  the null cipher allocates nothing. What holds: \<^verbatim>\<open>Encrypt\<close> of every cipher leaves every
  array that existed before the call as it was; the null cipher's \<^verbatim>\<open>Encrypt\<close> and
  \<^verbatim>\<open>Decrypt\<close> return their argument, the same slice; \<^verbatim>\<open>Encrypt\<close> of the other three
  variants returns a slice of an array the call allocated; \<^verbatim>\<open>Decrypt\<close> of the GCM
  variant and of the base64 wrapper leaves every array as it was and returns a slice of
  an array the call allocated (or the nil slice); \<^verbatim>\<open>Decrypt\<close> of the CFB variant leaves
  every array but its argument's as it was and, on a ciphertext of at least 16 bytes,
  writes the plaintext over the argument after its first 16 bytes and returns that part
  of the argument.
\<close>

theorem Encrypt_Decrypt_buffers:
  "preserved h (fst (Encrypt_heap c rand h v))
   \<and> Encrypt_heap (Default d) rand h v = (h, Ok v)
   \<and> fresh h (snd (Encrypt_heap (CFBCipher d k) rand h v))
   \<and> fresh h (snd (Encrypt_heap (GCMCipher d k) rand h v))
   \<and> fresh h (snd (Encrypt_heap (Base64Cipher d c) rand h v))
   \<and> Decrypt_heap (Default d) h ct = (h, Ok ct)
   \<and> preserved h (fst (Decrypt_heap (GCMCipher d k) h ct))
   \<and> fresh h (snd (Decrypt_heap (GCMCipher d k) h ct))
   \<and> preserved h (fst (Decrypt_heap (Base64Cipher d c) h ct))
   \<and> fresh h (snd (Decrypt_heap (Base64Cipher d c) h ct))
   \<and> preserved_but (array ct) h (fst (Decrypt_heap (CFBCipher d k) h ct))
   \<and> (valid h ct \<and> 16 \<le> len ct \<longrightarrow>
        (\<exists>p. Decrypt (CFBCipher d k) (load h ct) = Ok p
           \<and> Decrypt_heap (CFBCipher d k) h ct
               = (copy h (slice (array ct) (off ct + 16) (len ct - 16) (cap ct - 16)) p,
                  Ok (slice (array ct) (off ct + 16) (len ct - 16) (cap ct - 16)))
           \<and> load (fst (Decrypt_heap (CFBCipher d k) h ct)) ct = take 16 (load h ct) @ p))"
proof -
  have cfb: "\<exists>p. Decrypt (CFBCipher d k) (load h ct) = Ok p
           \<and> Decrypt_heap (CFBCipher d k) h ct
               = (copy h (slice (array ct) (off ct + 16) (len ct - 16) (cap ct - 16)) p,
                  Ok (slice (array ct) (off ct + 16) (len ct - 16) (cap ct - 16)))
           \<and> load (fst (Decrypt_heap (CFBCipher d k) h ct)) ct = take 16 (load h ct) @ p"
    if v: "valid h ct" and l: "16 \<le> len ct"
  proof -
    let ?p = "XORKeyStream (cfb k (take 16 (load h ct)) True) (drop 16 (load h ct))"
    have lp: "length ?p = len ct - 16"
      using v by (simp add: length_XORKeyStream length_load)
    have "Decrypt (CFBCipher d k) (load h ct) = Ok ?p"
      using v l by (simp add: CFBCipher_Decrypt_def NewCFBDecrypter_def newCFB_def BlockSize_def
          length_load)
    moreover note CFBCipher_Decrypt_heap_effect [OF v l, of k]
    moreover have "load (copy h (slice (array ct) (off ct + 16) (len ct - 16) (cap ct - 16)) ?p) ct
        = take 16 (load h ct) @ ?p"
      by (rule load_copy_tail [OF v l lp])
    ultimately show ?thesis by simp
  qed
  show ?thesis
  proof (intro conjI impI)
    show "preserved h (fst (Encrypt_heap c rand h v))"
      by (rule preserved_fst_Encrypt_heap)
    show "Encrypt_heap (Default d) rand h v = (h, Ok v)" by simp
    show "fresh h (snd (Encrypt_heap (CFBCipher d k) rand h v))"
      by (simp add: fresh_CFBCipher_Encrypt_heap)
    show "fresh h (snd (Encrypt_heap (GCMCipher d k) rand h v))"
      by (simp add: fresh_GCMCipher_Encrypt_heap)
    show "fresh h (snd (Encrypt_heap (Base64Cipher d c) rand h v))"
      by (rule fresh_Encrypt_heap_Base64)
    show "Decrypt_heap (Default d) h ct = (h, Ok ct)" by simp
    show "preserved h (fst (Decrypt_heap (GCMCipher d k) h ct))"
      by (simp add: preserved_GCMCipher_Decrypt_heap preserved_refl)
    show "fresh h (snd (Decrypt_heap (GCMCipher d k) h ct))"
      by (simp add: fresh_GCMCipher_Decrypt_heap)
    show "preserved h (fst (Decrypt_heap (Base64Cipher d c) h ct))"
      by (rule preserved_Decrypt_heap_Base64)
    show "fresh h (snd (Decrypt_heap (Base64Cipher d c) h ct))"
      by (rule fresh_Decrypt_heap_Base64)
    show "preserved_but (array ct) h (fst (Decrypt_heap (CFBCipher d k) h ct))"
      by (simp add: preserved_but_CFBCipher_Decrypt_heap)
    show "\<exists>p. Decrypt (CFBCipher d k) (load h ct) = Ok p
           \<and> Decrypt_heap (CFBCipher d k) h ct
               = (copy h (slice (array ct) (off ct + 16) (len ct - 16) (cap ct - 16)) p,
                  Ok (slice (array ct) (off ct + 16) (len ct - 16) (cap ct - 16)))
           \<and> load (fst (Decrypt_heap (CFBCipher d k) h ct)) ct = take 16 (load h ct) @ p"
      if "valid h ct \<and> 16 \<le> len ct"
      using cfb that by blast
  qed
qed

theorem Encrypt_Decrypt_buffers_witness:
  "valid [replicate 17 0] (slice 0 0 17 17) \<and> 16 \<le> len (slice 0 0 17 17)
   \<and> (\<exists>p. Decrypt (CFBCipher DefaultCipher (Block (aes_encrypt (replicate 16 0))))
              (load [replicate 17 0] (slice 0 0 17 17)) = Ok p
         \<and> load (fst (Decrypt_heap (CFBCipher DefaultCipher (Block (aes_encrypt (replicate 16 0))))
                         [replicate 17 0] (slice 0 0 17 17))) (slice 0 0 17 17)
             = take 16 (load [replicate 17 0] (slice 0 0 17 17)) @ p)"
proof -
  let ?h = "[replicate 17 0] :: heap"
  let ?ct = "slice 0 0 17 17"
  let ?k = "Block (aes_encrypt (replicate 16 0))"
  have v: "valid ?h ?ct" by (simp add: valid_def)
  have l: "16 \<le> len ?ct" by simp
  have "valid ?h ?ct \<and> 16 \<le> len ?ct \<longrightarrow>
        (\<exists>p. Decrypt (CFBCipher DefaultCipher ?k) (load ?h ?ct) = Ok p
           \<and> Decrypt_heap (CFBCipher DefaultCipher ?k) ?h ?ct
               = (copy ?h (slice (array ?ct) (off ?ct + 16) (len ?ct - 16) (cap ?ct - 16)) p,
                  Ok (slice (array ?ct) (off ?ct + 16) (len ?ct - 16) (cap ?ct - 16)))
           \<and> load (fst (Decrypt_heap (CFBCipher DefaultCipher ?k) ?h ?ct)) ?ct
               = take 16 (load ?h ?ct) @ p)"
    using Encrypt_Decrypt_buffers
      [of ?h "Default DefaultCipher" "Reader [] EOF" nil DefaultCipher ?k ?ct]
    by (elim conjE)
  with v l show ?thesis by blast
qed

text \<open>
  \<^verbatim>\<open>Decrypt\<close> of the CFB cipher for the key of 16 zero bytes on a buffer of 17 zero bytes:
  after the call the buffer (array 0 of the heap) ends with the byte \<open>0x66\<close>.
\<close>

theorem CFBCipher_Decrypt_overwrites_argument:
  "fst (Decrypt_heap (CFBCipher DefaultCipher (Block (aes_encrypt (replicate 16 0))))
          [replicate 17 0] (slice 0 0 17 17))
     = [replicate 16 0 @ [0x66]]
   \<and> \<not> preserved [replicate 17 0]
         (fst (Decrypt_heap (CFBCipher DefaultCipher (Block (aes_encrypt (replicate 16 0))))
                 [replicate 17 0] (slice 0 0 17 17)))"
proof -
  have v: "fst (Decrypt_heap (CFBCipher DefaultCipher (Block (aes_encrypt (replicate 16 0))))
          [replicate 17 0] (slice 0 0 17 17)) = [replicate 16 0 @ [0x66]]"
    by code_simp
  have "\<not> preserved [replicate 17 0] [replicate 16 0 @ [0x66 :: byte]]"
    by code_simp
  with v show ?thesis by simp
qed

end
